theory Spec2Isabelle
  imports Main "HOL-Library.Sublist"
begin

section \<open>The transcript parser of get_claude_usage.py\<close>

text \<open>
  The development embeds \<^verbatim>\<open>parse_usage\<close> (src/get_claude_usage.py, lines 156-246).

  A Python \<^verbatim>\<open>str\<close> is a sequence of Unicode code points. The raw transcript is
  therefore a list of code points (\<open>nat\<close>). The third substitution of the function
  replaces every character outside \<^verbatim>\<open>[\x20-\x7E\n]\<close> by a space, so from there on the
  text is held as a \<open>string\<close>, one \<open>char\<close> for each character.

  Each regular expression of the source is embedded as a matcher written for that
  expression. Python's \<^verbatim>\<open>re\<close> is a backtracking matcher with greedy quantifiers; where
  a greedy quantifier is followed by an item that cannot start with any character the
  quantifier accepts, giving characters back can never help, and the matcher takes the
  longest run. The one place of the source where giving back matters (the optional
  \<^verbatim>\<open>s\<close> before a month name) is written out as two attempts.
\<close>

subsection \<open>Characters\<close>

type_synonym codepoint = nat
type_synonym pystr = "codepoint list"

abbreviation ESC :: codepoint where
  "ESC \<equiv> 0x1B"

abbreviation NL :: char where
  "NL \<equiv> CHR 0x0A"

abbreviation SP :: char where
  "SP \<equiv> CHR 0x20"

definition py :: "string \<Rightarrow> pystr" where
  \<comment> \<open>The Python string whose characters are the given (Latin-1) characters.\<close>
  "py s = map of_char s"

definition csi_param :: "codepoint \<Rightarrow> bool" where
  \<comment> \<open>\<^verbatim>\<open>[0-9;?]\<close>\<close>
  "csi_param c \<longleftrightarrow> (0x30 \<le> c \<and> c \<le> 0x39) \<or> c = 0x3B \<or> c = 0x3F"

definition ascii_letter :: "codepoint \<Rightarrow> bool" where
  \<comment> \<open>\<^verbatim>\<open>[a-zA-Z]\<close> (the substitution is not case-insensitive)\<close>
  "ascii_letter c \<longleftrightarrow> (0x61 \<le> c \<and> c \<le> 0x7A) \<or> (0x41 \<le> c \<and> c \<le> 0x5A)"

definition osc_intro :: "codepoint \<Rightarrow> bool" where
  \<comment> \<open>\<^verbatim>\<open>[<>=\]]\<close>\<close>
  "osc_intro c \<longleftrightarrow> c = 0x3C \<or> c = 0x3E \<or> c = 0x3D \<or> c = 0x5D"

definition printable :: "codepoint \<Rightarrow> bool" where
  \<comment> \<open>\<^verbatim>\<open>[\x20-\x7E\n]\<close>\<close>
  "printable c \<longleftrightarrow> (0x20 \<le> c \<and> c \<le> 0x7E) \<or> c = 0x0A"

definition is_digit :: "char \<Rightarrow> bool" where
  \<comment> \<open>\<^verbatim>\<open>\d\<close>: among the characters below 256 the decimal digits are 0-9\<close>
  "is_digit c \<longleftrightarrow> c \<in> set ''0123456789''"

definition is_space :: "char \<Rightarrow> bool" where
  \<comment> \<open>\<^verbatim>\<open>\s\<close> and \<^verbatim>\<open>str.isspace\<close>: the white space among the characters below 256\<close>
  "is_space c \<longleftrightarrow>
     c \<in> {CHR 0x09, CHR 0x0A, CHR 0x0B, CHR 0x0C, CHR 0x0D,
          CHR 0x1C, CHR 0x1D, CHR 0x1E, CHR 0x1F, CHR 0x20, CHR 0x85, CHR 0xA0}"

definition lower_char :: "char \<Rightarrow> char" where
  \<comment> \<open>\<^verbatim>\<open>str.lower\<close> on one character below 256: A-Z, and the Latin-1 capitals
      0xC0-0xDE without the multiplication sign 0xD7\<close>
  "lower_char c =
     (let n = (of_char c :: nat)
      in if (0x41 \<le> n \<and> n \<le> 0x5A) \<or> (0xC0 \<le> n \<and> n \<le> 0xDE \<and> n \<noteq> 0xD7)
         then char_of (n + 0x20) else c)"

definition lower :: "string \<Rightarrow> string" where
  "lower s = map lower_char s"

definition strip :: "string \<Rightarrow> string" where
  \<comment> \<open>\<^verbatim>\<open>str.strip()\<close>\<close>
  "strip s = rev (dropWhile is_space (rev (dropWhile is_space s)))"

fun contains :: "string \<Rightarrow> string \<Rightarrow> bool" where
  \<comment> \<open>\<^verbatim>\<open>sub in s\<close>\<close>
  "contains sub [] = (sub = [])"
| "contains sub (c # cs) = (prefix sub (c # cs) \<or> contains sub cs)"

definition digit_val :: "char \<Rightarrow> int" where
  "digit_val c = int (of_char c) - 0x30"

definition int_of_digits :: "string \<Rightarrow> int" where
  \<comment> \<open>the value of a string of decimal digits; Python's integers are unbounded\<close>
  "int_of_digits ds = foldl (\<lambda>n c. 10 * n + digit_val c) 0 ds"

subsection \<open>Normalisation\<close>

text \<open>\<^verbatim>\<open>re.sub(r'\x1b\[[0-9;?]*[a-zA-Z]', '', text)\<close>\<close>

definition csi_rest :: "pystr \<Rightarrow> pystr option" where
  \<comment> \<open>after \<^verbatim>\<open>ESC [\<close>: the parameter characters, then one letter; the text that follows
      the match\<close>
  "csi_rest s =
     (case dropWhile csi_param s of
        [] \<Rightarrow> None
      | c # r \<Rightarrow> if ascii_letter c then Some r else None)"

function strip_csi :: "pystr \<Rightarrow> pystr" where
  "strip_csi [] = []"
| "strip_csi [a] = [a]"
| "strip_csi (a # b # s) =
     (if a = ESC \<and> b = 0x5B
      then (case csi_rest s of
              Some r \<Rightarrow> strip_csi r
            | None \<Rightarrow> a # strip_csi (b # s))
      else a # strip_csi (b # s))"
  by pat_completeness auto
termination
proof (relation "measure length")
  fix a b :: codepoint and s r :: pystr
  assume "csi_rest s = Some r"
  moreover have "length (dropWhile csi_param s) \<le> length s"
    by (rule length_dropWhile_le)
  ultimately have "length r < length s"
    by (auto simp: csi_rest_def split: list.splits if_splits)
  then show "(r, a # b # s) \<in> measure length"
    by simp
qed auto

text \<open>\<^verbatim>\<open>re.sub(r'\x1b[<>=\]][^\x1b]*', '', clean)\<close>\<close>

function strip_osc :: "pystr \<Rightarrow> pystr" where
  "strip_osc [] = []"
| "strip_osc [a] = [a]"
| "strip_osc (a # b # s) =
     (if a = ESC \<and> osc_intro b
      then strip_osc (dropWhile (\<lambda>c. c \<noteq> ESC) s)
      else a # strip_osc (b # s))"
  by pat_completeness auto
termination
  by (relation "measure length") (auto simp: le_imp_less_Suc length_dropWhile_le less_Suc_eq_le le_SucI)

text \<open>\<^verbatim>\<open>re.sub(r'[^\x20-\x7E\n]', ' ', clean)\<close>\<close>

definition to_printable :: "pystr \<Rightarrow> string" where
  "to_printable s = map (\<lambda>c. if printable c then char_of c else SP) s"

text \<open>\<^verbatim>\<open>re.sub(r' +', ' ', clean)\<close>\<close>

function collapse_spaces :: "string \<Rightarrow> string" where
  "collapse_spaces [] = []"
| "collapse_spaces (c # s) =
     (if c = SP
      then SP # collapse_spaces (dropWhile (\<lambda>x. x = SP) s)
      else c # collapse_spaces s)"
  by pat_completeness auto
termination
  by (relation "measure length") (auto simp: le_imp_less_Suc length_dropWhile_le)

definition clean_text :: "pystr \<Rightarrow> string" where
  "clean_text text = collapse_spaces (to_printable (strip_osc (strip_csi text)))"

definition last_chars :: "nat \<Rightarrow> string \<Rightarrow> string" where
  \<comment> \<open>\<^verbatim>\<open>s[-n:]\<close> for \<open>n > 0\<close>: the start index \<open>len(s) - n\<close> is clipped at 0\<close>
  "last_chars n s = drop (length s - n) s"

fun split_nl :: "string \<Rightarrow> string list" where
  \<comment> \<open>\<^verbatim>\<open>s.split('\n')\<close>: never empty; the empty string gives one empty line\<close>
  "split_nl [] = [[]]"
| "split_nl (c # s) =
     (if c = NL then [] # split_nl s
      else (case split_nl s of
              [] \<Rightarrow> [[c]]
            | l # ls \<Rightarrow> (c # l) # ls))"

subsection \<open>Searching a line\<close>

fun first_match :: "(string \<Rightarrow> 'a option) \<Rightarrow> string list \<Rightarrow> 'a option" where
  \<comment> \<open>\<^verbatim>\<open>for j in ...: m = re.search(..., lines[j]); if m: ...; break\<close>\<close>
  "first_match f [] = None"
| "first_match f (l # ls) = (case f l of Some v \<Rightarrow> Some v | None \<Rightarrow> first_match f ls)"

definition window :: "string list \<Rightarrow> nat \<Rightarrow> nat \<Rightarrow> string list" where
  \<comment> \<open>the lines \<^verbatim>\<open>lines[j]\<close> for \<^verbatim>\<open>j in range(i, min(i + n, len(lines)))\<close>\<close>
  "window lines i n = map (\<lambda>j. lines ! j) [i ..< min (i + n) (length lines)]"

fun search :: "(string \<Rightarrow> 'a option) \<Rightarrow> string \<Rightarrow> 'a option" where
  \<comment> \<open>\<^verbatim>\<open>re.search\<close>: the match at the leftmost position where the expression matches.
      None of the expressions matches the empty string, so the end of the line is no
      position to try.\<close>
  "search m [] = None"
| "search m (c # s) = (case m (c # s) of Some v \<Rightarrow> Some v | None \<Rightarrow> search m s)"

text \<open>\<^verbatim>\<open>(\d+)\s*%\<close>, giving group 1\<close>

definition percent_at :: "string \<Rightarrow> string option" where
  "percent_at s =
     (let ds = takeWhile is_digit s
      in if ds = [] then None
         else (case dropWhile is_space (dropWhile is_digit s) of
                 [] \<Rightarrow> None
               | c # _ \<Rightarrow> if c = CHR ''%'' then Some ds else None))"

definition search_percent :: "string \<Rightarrow> string option" where
  "search_percent = search percent_at"

text \<open>Literal text under \<^verbatim>\<open>re.IGNORECASE\<close>: the pattern is in lower case.\<close>

definition ci_eq :: "char \<Rightarrow> char \<Rightarrow> bool" where
  \<comment> \<open>a lower-case ASCII letter of the pattern against a character of the text\<close>
  "ci_eq p c \<longleftrightarrow> c = p \<or> of_char c + (0x20 :: nat) = of_char p"

fun ci_prefix :: "string \<Rightarrow> string \<Rightarrow> string option" where
  \<comment> \<open>the text after the pattern, when the text starts with it\<close>
  "ci_prefix [] s = Some s"
| "ci_prefix (p # ps) [] = None"
| "ci_prefix (p # ps) (c # s) = (if ci_eq p c then ci_prefix ps s else None)"

definition opt_s :: "string \<Rightarrow> string" where
  \<comment> \<open>\<^verbatim>\<open>s?\<close>, taken when it is there\<close>
  "opt_s s = (case s of [] \<Rightarrow> [] | c # r \<Rightarrow> if ci_eq CHR ''s'' c then r else c # r)"

definition not_close :: "char \<Rightarrow> bool" where
  \<comment> \<open>\<^verbatim>\<open>[^)\n]\<close>\<close>
  "not_close c \<longleftrightarrow> c \<noteq> CHR '')'' \<and> c \<noteq> NL"

text \<open>\<^verbatim>\<open>resets?\s*(\d+[:\d]*\s*[ap]m[^)\n]*)\<close> with \<^verbatim>\<open>re.IGNORECASE\<close>, giving group 1\<close>

definition clock_at :: "string \<Rightarrow> string option" where
  \<comment> \<open>the group: \<^verbatim>\<open>\d+[:\d]*\s*[ap]m[^)\n]*\<close>\<close>
  "clock_at s =
     (let ds = takeWhile is_digit s;
          s1 = dropWhile is_digit s;
          cs = takeWhile (\<lambda>c. c = CHR '':'' \<or> is_digit c) s1;
          s2 = dropWhile (\<lambda>c. c = CHR '':'' \<or> is_digit c) s1;
          ws = takeWhile is_space s2;
          s3 = dropWhile is_space s2
      in if ds = [] then None
         else (case s3 of
                 a # m # s4 \<Rightarrow>
                   if (ci_eq CHR ''a'' a \<or> ci_eq CHR ''p'' a) \<and> ci_eq CHR ''m'' m
                   then Some (ds @ cs @ ws @ [a, m] @ takeWhile not_close s4)
                   else None
               | _ \<Rightarrow> None))"

definition session_reset_at :: "string \<Rightarrow> string option" where
  "session_reset_at s =
     (case ci_prefix ''reset'' s of
        None \<Rightarrow> None
      | Some s1 \<Rightarrow> clock_at (dropWhile is_space (opt_s s1)))"

definition search_session_reset :: "string \<Rightarrow> string option" where
  "search_session_reset = search session_reset_at"

text \<open>
  \<^verbatim>\<open>resets?\s*(jan|feb|mar|apr|may|jun|jul|aug|sep|oct|nov|dec)[^)\n]+\<close> with
  \<^verbatim>\<open>re.IGNORECASE\<close>, giving group 0 (the whole match)
\<close>

definition months :: "string list" where
  "months = [''jan'', ''feb'', ''mar'', ''apr'', ''may'', ''jun'',
             ''jul'', ''aug'', ''sep'', ''oct'', ''nov'', ''dec'']"

definition month_at :: "string \<Rightarrow> string option" where
  \<comment> \<open>\<^verbatim>\<open>\s*(jan|...|dec)[^)\n]+\<close>: the text matched\<close>
  "month_at s =
     (let ws = takeWhile is_space s;
          s1 = dropWhile is_space s;
          body = takeWhile not_close (drop 3 s1)
      in if list_ex (\<lambda>m. ci_prefix m s1 \<noteq> None) months \<and> body \<noteq> []
         then Some (ws @ take 3 s1 @ body)
         else None)"

definition weekly_reset_at :: "string \<Rightarrow> string option" where
  \<comment> \<open>\<^verbatim>\<open>s?\<close> is greedy: the match that takes an \<^verbatim>\<open>s\<close> is tried first, and the
      one that leaves it (to start \<^verbatim>\<open>sep\<close>) only when the first fails\<close>
  "weekly_reset_at s =
     (case ci_prefix ''reset'' s of
        None \<Rightarrow> None
      | Some s1 \<Rightarrow>
          (case (case s1 of
                   [] \<Rightarrow> None
                 | c # r \<Rightarrow> if ci_eq CHR ''s'' c then map_option ((#) c) (month_at r) else None) of
             Some t \<Rightarrow> Some (take 5 s @ t)
           | None \<Rightarrow> map_option ((@) (take 5 s)) (month_at s1)))"

definition search_weekly_reset :: "string \<Rightarrow> string option" where
  "search_weekly_reset = search weekly_reset_at"

definition drop_resets :: "string \<Rightarrow> string" where
  \<comment> \<open>\<^verbatim>\<open>re.sub(r'^resets?\s*', '', reset_text, flags=re.IGNORECASE)\<close>\<close>
  "drop_resets t =
     (case ci_prefix ''reset'' t of
        None \<Rightarrow> t
      | Some s1 \<Rightarrow> dropWhile is_space (opt_s s1))"

subsection \<open>The parser\<close>

record usage_record =
  session_percent :: int
  session_reset :: string
  weekly_percent :: int
  weekly_reset :: string
  sonnet_percent :: int
  raw :: string

definition initial_result :: usage_record where
  "initial_result =
     \<lparr>session_percent = 0, session_reset = [], weekly_percent = 0,
      weekly_reset = [], sonnet_percent = 0, raw = []\<rparr>"

text \<open>
  \<^verbatim>\<open>int(match.group(1))\<close> is the one call of \<^verbatim>\<open>parse_usage\<close> that can raise. CPython
  (3.11 and later, and the security releases of 3.7 to 3.10) refuses to convert a string
  of more than \<^verbatim>\<open>sys.int_info.default_max_str_digits\<close> = 4300 digits and raises
  \<^verbatim>\<open>ValueError\<close>; leading zeros count. \<^verbatim>\<open>parse_usage\<close> has no \<^verbatim>\<open>try\<close>, so the
  exception leaves the function.
\<close>

datatype py_error = ValueError

definition int_max_str_digits :: nat where
  "int_max_str_digits = 4300"

definition py_int :: "string \<Rightarrow> py_error + int" where
  \<comment> \<open>\<^verbatim>\<open>int(ds)\<close> for a non-empty string of decimal digits\<close>
  "py_int ds =
     (if int_max_str_digits < length ds then Inl ValueError else Inr (int_of_digits ds))"

definition session_header :: "string \<Rightarrow> bool" where
  "session_header l \<longleftrightarrow> contains ''current session'' (lower (strip l))"

definition weekly_header :: "string \<Rightarrow> bool" where
  "weekly_header l \<longleftrightarrow>
     contains ''current week'' (lower (strip l)) \<and> contains ''all models'' (lower (strip l))"

definition sonnet_header :: "string \<Rightarrow> bool" where
  "sonnet_header l \<longleftrightarrow> contains ''sonnet only'' (lower (strip l))"

definition session_section :: "string list \<Rightarrow> nat \<Rightarrow> usage_record \<Rightarrow> py_error + usage_record" where
  "session_section lines i res =
     (case (case first_match search_percent (window lines i 3) of
              Some ds \<Rightarrow>
                (case py_int ds of
                   Inl e \<Rightarrow> Inl e
                 | Inr n \<Rightarrow> Inr (res\<lparr>session_percent := n\<rparr>))
            | None \<Rightarrow> Inr res) of
        Inl e \<Rightarrow> Inl e
      | Inr res1 \<Rightarrow>
          Inr (case first_match search_session_reset (window lines i 3) of
                 Some t \<Rightarrow> res1\<lparr>session_reset := strip t\<rparr>
               | None \<Rightarrow> res1))"

definition weekly_section :: "string list \<Rightarrow> nat \<Rightarrow> usage_record \<Rightarrow> py_error + usage_record" where
  "weekly_section lines i res =
     (case (case first_match search_percent (window lines i 3) of
              Some ds \<Rightarrow>
                (case py_int ds of
                   Inl e \<Rightarrow> Inl e
                 | Inr n \<Rightarrow> Inr (res\<lparr>weekly_percent := n\<rparr>))
            | None \<Rightarrow> Inr res) of
        Inl e \<Rightarrow> Inl e
      | Inr res1 \<Rightarrow>
          Inr (case first_match search_weekly_reset (window lines i 5) of
                 Some t \<Rightarrow> res1\<lparr>weekly_reset := strip (drop_resets t)\<rparr>
               | None \<Rightarrow> res1))"

definition sonnet_section :: "string list \<Rightarrow> nat \<Rightarrow> usage_record \<Rightarrow> py_error + usage_record" where
  "sonnet_section lines i res =
     (case first_match search_percent (window lines i 3) of
        Some ds \<Rightarrow>
          (case py_int ds of
             Inl e \<Rightarrow> Inl e
           | Inr n \<Rightarrow> Inr (res\<lparr>sonnet_percent := n\<rparr>))
      | None \<Rightarrow> Inr res)"

definition step :: "string list \<Rightarrow> nat \<Rightarrow> usage_record \<Rightarrow> py_error + usage_record" where
  \<comment> \<open>the body of the \<^verbatim>\<open>while\<close> loop at line \<open>i\<close>: three \<^verbatim>\<open>if\<close>s in sequence; an
      exception ends the body\<close>
  "step lines i res =
     (case (if session_header (lines ! i) then session_section lines i res else Inr res) of
        Inl e \<Rightarrow> Inl e
      | Inr res1 \<Rightarrow>
          (case (if weekly_header (lines ! i) then weekly_section lines i res1 else Inr res1) of
             Inl e \<Rightarrow> Inl e
           | Inr res2 \<Rightarrow>
               (if sonnet_header (lines ! i) then sonnet_section lines i res2 else Inr res2)))"

function parse_loop :: "string list \<Rightarrow> nat \<Rightarrow> usage_record \<Rightarrow> py_error + usage_record" where
  \<comment> \<open>\<^verbatim>\<open>while i < len(lines): ...; i += 1\<close>, then \<^verbatim>\<open>return result\<close>; an exception ends
      the loop and the function\<close>
  "parse_loop lines i res =
     (if i < length lines
      then (case step lines i res of
              Inl e \<Rightarrow> Inl e
            | Inr res' \<Rightarrow> parse_loop lines (Suc i) res')
      else Inr res)"
  by pat_completeness auto
termination
  by (relation "measure (\<lambda>(lines, i, res). length lines - i)") auto

declare parse_loop.simps [simp del]

definition parse_usage :: "pystr \<Rightarrow> py_error + usage_record" where
  "parse_usage text =
     (let clean = clean_text text;
          res = initial_result\<lparr>raw := last_chars 1000 clean\<rparr>
      in parse_loop (split_nl clean) 0 res)"

section \<open>Notions used in the statements\<close>

text \<open>No two neighbouring characters of the string are both spaces.\<close>

fun no_double_space :: "string \<Rightarrow> bool" where
  "no_double_space (a # b # s) = (\<not> (a = SP \<and> b = SP) \<and> no_double_space (b # s))"
| "no_double_space s = True"

text \<open>
  The lines the loop runs over, and for a line index what each of the searches of the
  loop body finds in the window that starts there: the percentage (the same search for
  the three sections), the reset time of the session, and the reset date of the week.
\<close>

definition cleaned_lines :: "pystr \<Rightarrow> string list" where
  "cleaned_lines text = split_nl (clean_text text)"

definition percent_in :: "string list \<Rightarrow> nat \<Rightarrow> int option" where
  "percent_in lines i = map_option int_of_digits (first_match search_percent (window lines i 3))"

definition session_reset_in :: "string list \<Rightarrow> nat \<Rightarrow> string option" where
  "session_reset_in lines i = map_option strip (first_match search_session_reset (window lines i 3))"

definition weekly_reset_in :: "string list \<Rightarrow> nat \<Rightarrow> string option" where
  "weekly_reset_in lines i =
     map_option (\<lambda>t. strip (drop_resets t)) (first_match search_weekly_reset (window lines i 5))"

text \<open>
  What one pass of the loop body does to one field: on a header line of the section the
  field takes what the search finds, and keeps its value when the search finds nothing.
  \<open>finds_nothing\<close> says that on every header line of a section the search finds nothing.
\<close>

definition field_step :: "(string \<Rightarrow> bool) \<Rightarrow> (nat \<Rightarrow> 'a option) \<Rightarrow> string list \<Rightarrow> nat \<Rightarrow> 'a \<Rightarrow> 'a" where
  "field_step hdr srch lines i v =
     (if hdr (lines ! i) then (case srch i of Some w \<Rightarrow> w | None \<Rightarrow> v) else v)"

definition finds_nothing :: "(string \<Rightarrow> bool) \<Rightarrow> (nat \<Rightarrow> 'a option) \<Rightarrow> string list \<Rightarrow> bool" where
  "finds_nothing hdr srch lines \<longleftrightarrow>
     list_all (\<lambda>i. hdr (lines ! i) \<longrightarrow> srch i = None) [0 ..< length lines]"

text \<open>
  The percentage found in the window at line \<open>i\<close> has no more digits than \<^verbatim>\<open>int\<close>
  converts; \<open>converts\<close> says so for every header line of the three sections, the lines
  where the loop converts a percentage.
\<close>

definition percent_fits :: "string list \<Rightarrow> nat \<Rightarrow> bool" where
  "percent_fits lines i \<longleftrightarrow>
     (case first_match search_percent (window lines i 3) of
        None \<Rightarrow> True
      | Some ds \<Rightarrow> length ds \<le> int_max_str_digits)"

definition converts_at :: "string list \<Rightarrow> nat \<Rightarrow> bool" where
  "converts_at lines i \<longleftrightarrow>
     (session_header (lines ! i) \<or> weekly_header (lines ! i) \<or> sonnet_header (lines ! i)
        \<longrightarrow> percent_fits lines i)"

definition converts :: "string list \<Rightarrow> bool" where
  "converts lines \<longleftrightarrow> list_all (converts_at lines) [0 ..< length lines]"

text \<open>
  The percent pattern as claim C3 words it, digits immediately followed by a percent
  sign, matched at the start of a string. It follows the words of the specification, not
  the source, whose pattern \<^verbatim>\<open>(\d+)\s*%\<close> is \<open>percent_at\<close>.
\<close>

definition spec_percent_at :: "string \<Rightarrow> string option" where
  "spec_percent_at s =
     (let ds = takeWhile is_digit s
      in if ds = [] then None
         else (case dropWhile is_digit s of
                 [] \<Rightarrow> None
               | c # _ \<Rightarrow> if c = CHR ''%'' then Some ds else None))"

text \<open>
  An occurrence of the source's pattern in a line, said without the matcher: after the
  text \<open>a\<close> come the digits \<open>ds\<close> (at least one), then white space (possibly none),
  then a percent sign.
\<close>

definition percent_occurrence :: "string \<Rightarrow> string \<Rightarrow> string \<Rightarrow> bool" where
  "percent_occurrence l a ds \<longleftrightarrow>
     (\<exists>ws b. l = a @ ds @ ws @ CHR ''%'' # b \<and> ds \<noteq> [] \<and> list_all is_digit ds \<and> list_all is_space ws)"

text \<open>
  What the later header lines of a section leave in a field: the value found at the last
  header line of the section (\<open>hdr\<close>) at which the search (\<open>srch\<close>) finds something,
  and \<open>None\<close> when there is no such line.
\<close>

definition last_found :: "(string \<Rightarrow> bool) \<Rightarrow> (nat \<Rightarrow> 'a option) \<Rightarrow> string list \<Rightarrow> 'a option" where
  "last_found hdr srch lines =
     fold (\<lambda>i acc. if hdr (lines ! i) then (case srch i of Some w \<Rightarrow> Some w | None \<Rightarrow> acc) else acc)
       [0 ..< length lines] None"

text \<open>
  The parts of a line with a reset text, worded after the two expressions of the source.
  \<open>resets_word\<close>: the word \<^verbatim>\<open>resets\<close> in any letter case. \<open>clock_text\<close>: the parts of
  \<^verbatim>\<open>\d+[:\d]*\s*[ap]m[^)\n]*\<close>, digits and colons that start with a digit, white
  space, the two letters, and the rest. \<open>date_text\<close>: the parts of
  \<^verbatim>\<open>(jan|...|dec)[^)\n]+\<close>, the three letters of a month in any letter case and a
  rest that is not empty.
\<close>

definition resets_word :: "string \<Rightarrow> bool" where
  "resets_word kw \<longleftrightarrow> list_all2 ci_eq ''resets'' kw"

definition clock_text :: "string \<Rightarrow> string \<Rightarrow> char \<Rightarrow> char \<Rightarrow> string \<Rightarrow> bool" where
  "clock_text dc ws x m z \<longleftrightarrow>
     dc \<noteq> [] \<and> is_digit (hd dc) \<and> list_all (\<lambda>c. c = CHR '':'' \<or> is_digit c) dc \<and>
     list_all is_space ws \<and>
     (ci_eq CHR ''a'' x \<or> ci_eq CHR ''p'' x) \<and> ci_eq CHR ''m'' m \<and>
     list_all not_close z"

definition date_text :: "string \<Rightarrow> string \<Rightarrow> bool" where
  "date_text mon z \<longleftrightarrow>
     list_ex (\<lambda>m. list_all2 ci_eq m mon) months \<and> z \<noteq> [] \<and> list_all not_close z"

section \<open>The loop when every conversion succeeds\<close>

text \<open>
  The loop body and the result of the function with the conversion taken as the value of
  the digits. \<open>parse_usage_eq\<close> below shows that \<^verbatim>\<open>parse_usage\<close> returns this record when
  every conversion succeeds, and raises otherwise.
\<close>

definition session_section_ok :: "string list \<Rightarrow> nat \<Rightarrow> usage_record \<Rightarrow> usage_record" where
  "session_section_ok lines i res =
     (let res1 = (case first_match search_percent (window lines i 3) of
                    Some ds \<Rightarrow> res\<lparr>session_percent := int_of_digits ds\<rparr>
                  | None \<Rightarrow> res)
      in case first_match search_session_reset (window lines i 3) of
           Some t \<Rightarrow> res1\<lparr>session_reset := strip t\<rparr>
         | None \<Rightarrow> res1)"

definition weekly_section_ok :: "string list \<Rightarrow> nat \<Rightarrow> usage_record \<Rightarrow> usage_record" where
  "weekly_section_ok lines i res =
     (let res1 = (case first_match search_percent (window lines i 3) of
                    Some ds \<Rightarrow> res\<lparr>weekly_percent := int_of_digits ds\<rparr>
                  | None \<Rightarrow> res)
      in case first_match search_weekly_reset (window lines i 5) of
           Some t \<Rightarrow> res1\<lparr>weekly_reset := strip (drop_resets t)\<rparr>
         | None \<Rightarrow> res1)"

definition sonnet_section_ok :: "string list \<Rightarrow> nat \<Rightarrow> usage_record \<Rightarrow> usage_record" where
  "sonnet_section_ok lines i res =
     (case first_match search_percent (window lines i 3) of
        Some ds \<Rightarrow> res\<lparr>sonnet_percent := int_of_digits ds\<rparr>
      | None \<Rightarrow> res)"

definition step_ok :: "string list \<Rightarrow> nat \<Rightarrow> usage_record \<Rightarrow> usage_record" where
  "step_ok lines i res =
     (let res1 = (if session_header (lines ! i) then session_section_ok lines i res else res);
          res2 = (if weekly_header (lines ! i) then weekly_section_ok lines i res1 else res1)
      in if sonnet_header (lines ! i) then sonnet_section_ok lines i res2 else res2)"

definition parsed :: "pystr \<Rightarrow> usage_record" where
  "parsed text =
     fold (step_ok (split_nl (clean_text text))) [0 ..< length (split_nl (clean_text text))]
       (initial_result\<lparr>raw := last_chars 1000 (clean_text text)\<rparr>)"

section \<open>Lemmas\<close>

subsection \<open>Normalisation\<close>

lemma collapse_spaces_set: "set (collapse_spaces s) \<subseteq> set s"
proof (induction s rule: collapse_spaces.induct)
  case 1
  show ?case by simp
next
  case (2 c s)
  have "set (dropWhile (\<lambda>x. x = SP) s) \<subseteq> set s"
    by (auto dest: set_dropWhileD)
  with 2 show ?case by auto
qed

lemma collapse_spaces_Cons: "\<exists>r. collapse_spaces (c # s) = c # r"
  by simp

lemma no_double_space_tl: "no_double_space (a # s) \<Longrightarrow> no_double_space s"
  by (cases s) auto

lemma no_double_space_drop: "no_double_space s \<Longrightarrow> no_double_space (drop n s)"
proof (induction n arbitrary: s)
  case 0
  then show ?case by simp
next
  case (Suc n)
  then show ?case by (cases s) (auto dest: no_double_space_tl)
qed

lemma raw_step: "raw (step_ok lines i res) = raw res"
  by (simp add: step_ok_def session_section_ok_def weekly_section_ok_def sonnet_section_ok_def Let_def
      split: option.splits)

lemma raw_fold: "raw (fold (step_ok lines) is res) = raw res"
  by (induction "is" arbitrary: res) (simp_all add: raw_step)

lemma collapse_spaces_no_double: "no_double_space (collapse_spaces s)"
proof (induction s rule: collapse_spaces.induct)
  case 1
  show ?case by simp
next
  case (2 c s)
  show ?case
  proof (cases "c = SP")
    case True
    let ?r = "dropWhile (\<lambda>x. x = SP) s"
    have a: "no_double_space (collapse_spaces ?r)" using 2(1) True by simp
    show ?thesis
    proof (cases ?r)
      case Nil
      then have "collapse_spaces ?r = []" by (simp only: collapse_spaces.simps)
      then show ?thesis using True by simp
    next
      case (Cons d r)
      then have "d \<noteq> SP" using hd_dropWhile[of "\<lambda>x. x = SP" s] by auto
      moreover obtain r' where "collapse_spaces ?r = d # r'"
        using Cons collapse_spaces_Cons[of d r] by auto
      ultimately show ?thesis using a True by simp
    qed
  next
    case False
    then have a: "no_double_space (collapse_spaces s)" using 2(2) by simp
    show ?thesis
    proof (cases s)
      case Nil
      then show ?thesis using False by simp
    next
      case (Cons d r)
      then obtain r' where "collapse_spaces s = d # r'"
        using collapse_spaces_Cons[of d r] by auto
      then show ?thesis using a False by simp
    qed
  qed
qed

lemma to_printable_chars: "c \<in> set (to_printable s) \<Longrightarrow> printable (of_char c)"
  by (auto simp: to_printable_def printable_def)

lemma clean_text_printable: "c \<in> set (clean_text t) \<Longrightarrow> printable (of_char c)"
  using collapse_spaces_set to_printable_chars by (fastforce simp: clean_text_def)

lemma strip_csi_id: "ESC \<notin> set s \<Longrightarrow> strip_csi s = s"
  by (induction s rule: strip_csi.induct) auto

lemma strip_osc_id: "ESC \<notin> set s \<Longrightarrow> strip_osc s = s"
  by (induction s rule: strip_osc.induct) auto

lemma parsed_raw: "raw (parsed text) = last_chars 1000 (clean_text text)"
  by (simp add: parsed_def Let_def raw_fold)

lemma last_chars_length: "length (last_chars n s) = min n (length s)"
  by (simp add: last_chars_def)

lemma last_chars_suffix: "suffix (last_chars n s) s"
  by (simp add: last_chars_def suffix_drop)

lemma clean_text_no_esc: "ESC \<notin> set (py (clean_text text))"
  by (auto simp: py_def printable_def dest!: clean_text_printable)

lemma of_char_NL: "(of_char c :: nat) = 10 \<longleftrightarrow> c = NL"
proof -
  have "(of_char c :: nat) = of_char NL \<longleftrightarrow> c = NL"
    by (rule of_char_eq_iff)
  then show ?thesis by simp
qed

lemma collapse_spaces_nospace: "SP \<notin> set s \<Longrightarrow> collapse_spaces s = s"
  by (induction s) auto

lemma char_of_x: "char_of (0x78 :: nat) = CHR ''x''"
  by code_simp

lemma clean_text_replicate_x: "clean_text (replicate n 0x78) = replicate n CHR ''x''"
  by (simp add: clean_text_def strip_csi_id strip_osc_id to_printable_def printable_def
      char_of_x collapse_spaces_nospace)

lemma suffix_replicate: "suffix r (replicate n x) \<Longrightarrow> length r = m \<Longrightarrow> r = replicate m x"
proof -
  assume a: "suffix r (replicate n x)" and l: "length r = m"
  then obtain p where "replicate n x = p @ r" by (auto simp: suffix_def)
  then have "set r \<subseteq> set (replicate n x)" by (metis set_append Un_upper2)
  then have "\<forall>y\<in>set r. y = x" by auto
  with l show ?thesis by (simp add: replicate_eqI)
qed

subsection \<open>The loop, field by field\<close>

lemma session_percent_step:
  "session_percent (step_ok lines i res) =
   field_step session_header (percent_in lines) lines i (session_percent res)"
  by (simp add: step_ok_def session_section_ok_def weekly_section_ok_def sonnet_section_ok_def Let_def
      field_step_def percent_in_def split: option.splits)

lemma session_reset_step:
  "session_reset (step_ok lines i res) =
   field_step session_header (session_reset_in lines) lines i (session_reset res)"
  by (simp add: step_ok_def session_section_ok_def weekly_section_ok_def sonnet_section_ok_def Let_def
      field_step_def session_reset_in_def split: option.splits)

lemma weekly_percent_step:
  "weekly_percent (step_ok lines i res) =
   field_step weekly_header (percent_in lines) lines i (weekly_percent res)"
  by (simp add: step_ok_def session_section_ok_def weekly_section_ok_def sonnet_section_ok_def Let_def
      field_step_def percent_in_def split: option.splits)

lemma weekly_reset_step:
  "weekly_reset (step_ok lines i res) =
   field_step weekly_header (weekly_reset_in lines) lines i (weekly_reset res)"
  by (simp add: step_ok_def session_section_ok_def weekly_section_ok_def sonnet_section_ok_def Let_def
      field_step_def weekly_reset_in_def split: option.splits)

lemma sonnet_percent_step:
  "sonnet_percent (step_ok lines i res) =
   field_step sonnet_header (percent_in lines) lines i (sonnet_percent res)"
  by (simp add: step_ok_def session_section_ok_def weekly_section_ok_def sonnet_section_ok_def Let_def
      field_step_def percent_in_def split: option.splits)

lemma fold_field:
  assumes "\<And>i res. f (step_ok lines i res) = field_step hdr srch lines i (f res)"
  shows "f (fold (step_ok lines) is res) = fold (field_step hdr srch lines) is (f res)"
  using assms by (induction "is" arbitrary: res) simp_all

lemma field_fold_none:
  "\<forall>i\<in>set is. hdr (lines ! i) \<longrightarrow> srch i = None \<Longrightarrow> fold (field_step hdr srch lines) is v = v"
  by (induction "is" arbitrary: v) (auto simp: field_step_def)

lemma field_fold_last:
  assumes "hdr (lines ! k)" and "srch k = Some w"
    and "\<forall>i\<in>set is2. hdr (lines ! i) \<longrightarrow> srch i = None"
  shows "fold (field_step hdr srch lines) (is1 @ k # is2) v = w"
  using assms by (simp add: field_fold_none) (simp add: field_step_def)

lemma field_fold_inv:
  assumes "P v" and "\<And>i w. i \<in> set is \<Longrightarrow> srch i = Some w \<Longrightarrow> P w"
  shows "P (fold (field_step hdr srch lines) is v)"
  using assms by (induction "is" arbitrary: v) (auto simp: field_step_def split: option.splits)

lemma parsed_field:
  assumes "\<And>i res. f (step_ok lines i res) = field_step hdr srch lines i (f res)"
    and "lines = split_nl (clean_text text)"
  shows "f (parsed text) =
         fold (field_step hdr srch lines) [0 ..< length lines]
           (f (initial_result\<lparr>raw := last_chars 1000 (clean_text text)\<rparr>))"
  using assms(2) fold_field [of f lines hdr srch, OF assms(1)]
  by (simp add: parsed_def Let_def)

lemmas parsed_session_percent = parsed_field [of session_percent, OF session_percent_step]
lemmas parsed_session_reset = parsed_field [of session_reset, OF session_reset_step]
lemmas parsed_weekly_percent = parsed_field [of weekly_percent, OF weekly_percent_step]
lemmas parsed_weekly_reset = parsed_field [of weekly_reset, OF weekly_reset_step]
lemmas parsed_sonnet_percent = parsed_field [of sonnet_percent, OF sonnet_percent_step]


lemma finds_nothing_fold:
  "finds_nothing hdr srch lines \<Longrightarrow> fold (field_step hdr srch lines) [0 ..< length lines] v = v"
  by (rule field_fold_none) (simp add: finds_nothing_def list_all_iff)

lemma no_header_finds_nothing:
  "list_all (\<lambda>l. \<not> hdr l) lines \<Longrightarrow> finds_nothing hdr srch lines"
  by (simp add: finds_nothing_def list_all_length)

subsection \<open>What the searches for a reset text return\<close>

lemma split_nl_no_NL: "l \<in> set (split_nl s) \<Longrightarrow> NL \<notin> set l"
proof (induction s arbitrary: l)
  case Nil
  then show ?case by simp
next
  case (Cons c s)
  show ?case
  proof (cases "c = NL")
    case True
    with Cons show ?thesis by auto
  next
    case False
    with Cons show ?thesis by (cases "split_nl s") auto
  qed
qed

lemma window_subset: "set (window lines i n) \<subseteq> set lines"
  by (auto simp: window_def)

lemma first_match_Some: "first_match f ls = Some v \<Longrightarrow> \<exists>l\<in>set ls. f l = Some v"
  by (induction ls) (auto split: option.splits)

lemma search_Some: "search m s = Some v \<Longrightarrow> \<exists>t. set t \<subseteq> set s \<and> m t = Some v"
proof (induction s)
  case Nil
  then show ?case by simp
next
  case (Cons c s)
  show ?case
  proof (cases "m (c # s)")
    case None
    with Cons obtain t where "set t \<subseteq> set s" "m t = Some v" by auto
    then show ?thesis by (intro exI [of _ t]) auto
  next
    case (Some w)
    with Cons show ?thesis by (intro exI [of _ "c # s"]) auto
  qed
qed

lemma strip_subset: "set (strip t) \<subseteq> set t"
  by (auto simp: strip_def dest!: set_dropWhileD)

lemma ci_prefix_Some:
  "ci_prefix p s = Some r \<Longrightarrow> s = take (length p) s @ r \<and> list_all2 ci_eq p (take (length p) s)"
  by (induction p s rule: ci_prefix.induct) (auto split: if_splits)

lemma ci_eq_plain:
  "ci_eq p c \<Longrightarrow> p \<in> set ''abcdefghijklmnopqrstuvwxyz'' \<Longrightarrow> c \<noteq> CHR '')''"
  by (auto simp: ci_eq_def)

lemma is_space_plain: "is_space c \<Longrightarrow> c \<noteq> CHR '')''"
  by (auto simp: is_space_def)

lemma is_digit_plain: "is_digit c \<Longrightarrow> c \<noteq> CHR '')''"
  by (auto simp: is_digit_def)

lemma opt_s_subset: "set (opt_s s) \<subseteq> set s"
  by (auto simp: opt_s_def split: list.splits if_splits)

lemma clock_at_subset: "clock_at s = Some t \<Longrightarrow> set t \<subseteq> set s"
proof -
  assume a: "clock_at s = Some t"
  let ?cd = "\<lambda>c. c = CHR '':'' \<or> is_digit c"
  let ?s1 = "dropWhile is_digit s"
  let ?s2 = "dropWhile ?cd ?s1"
  let ?s3 = "dropWhile is_space ?s2"
  have s1: "set ?s1 \<subseteq> set s" by (auto dest: set_dropWhileD)
  have s2: "set ?s2 \<subseteq> set ?s1" by (auto dest: set_dropWhileD)
  have s3: "set ?s3 \<subseteq> set ?s2" by (auto dest: set_dropWhileD)
  from a obtain x m s4 where s3eq: "?s3 = x # m # s4"
    and t: "t = takeWhile is_digit s @ takeWhile ?cd ?s1 @ takeWhile is_space ?s2 @ [x, m] @ takeWhile not_close s4"
    by (auto simp: clock_at_def Let_def split: if_splits list.splits)
  have "set (takeWhile not_close s4) \<subseteq> set ?s3"
    using s3eq by (auto dest: set_takeWhileD)
  moreover have "x \<in> set ?s3" "m \<in> set ?s3" using s3eq by auto
  moreover have "set (takeWhile is_digit s) \<subseteq> set s" by (auto dest: set_takeWhileD)
  moreover have "set (takeWhile ?cd ?s1) \<subseteq> set ?s1" by (auto dest: set_takeWhileD)
  moreover have "set (takeWhile is_space ?s2) \<subseteq> set ?s2" by (auto dest: set_takeWhileD)
  ultimately show ?thesis using s1 s2 s3 unfolding t by simp blast
qed

lemma clock_at_no_close: "clock_at s = Some t \<Longrightarrow> CHR '')'' \<notin> set t"
proof -
  assume a: "clock_at s = Some t"
  let ?cd = "\<lambda>c. c = CHR '':'' \<or> is_digit c"
  let ?s1 = "dropWhile is_digit s"
  let ?s2 = "dropWhile ?cd ?s1"
  let ?s3 = "dropWhile is_space ?s2"
  from a obtain x m s4 where s3eq: "?s3 = x # m # s4"
    and xm: "(ci_eq CHR ''a'' x \<or> ci_eq CHR ''p'' x) \<and> ci_eq CHR ''m'' m"
    and t: "t = takeWhile is_digit s @ takeWhile ?cd ?s1 @ takeWhile is_space ?s2 @ [x, m] @ takeWhile not_close s4"
    by (auto simp: clock_at_def Let_def split: if_splits list.splits)
  have "CHR '')'' \<notin> set (takeWhile is_digit s)"
    by (auto dest!: set_takeWhileD simp: is_digit_def)
  moreover have "CHR '')'' \<notin> set (takeWhile ?cd ?s1)"
    by (auto dest!: set_takeWhileD simp: is_digit_def)
  moreover have "CHR '')'' \<notin> set (takeWhile is_space ?s2)"
    by (auto dest!: set_takeWhileD simp: is_space_def)
  moreover have "CHR '')'' \<notin> set (takeWhile not_close s4)"
    by (auto dest!: set_takeWhileD simp: not_close_def)
  moreover have "x \<noteq> CHR '')''" "m \<noteq> CHR '')''"
    using xm by (auto simp: ci_eq_def)
  ultimately show ?thesis unfolding t by auto
qed

lemma session_reset_at_subset: "session_reset_at s = Some t \<Longrightarrow> set t \<subseteq> set s"
proof -
  assume a: "session_reset_at s = Some t"
  then obtain s1 where p: "ci_prefix ''reset'' s = Some s1"
    and c: "clock_at (dropWhile is_space (opt_s s1)) = Some t"
    by (auto simp: session_reset_at_def split: option.splits)
  from ci_prefix_Some [OF p] have "set s1 \<subseteq> set s"
    by (metis set_append Un_upper2)
  moreover have "set (dropWhile is_space (opt_s s1)) \<subseteq> set s1"
    using opt_s_subset [of s1] by (auto dest!: set_dropWhileD)
  ultimately show ?thesis using clock_at_subset [OF c] by blast
qed

lemma session_reset_at_no_close: "session_reset_at s = Some t \<Longrightarrow> CHR '')'' \<notin> set t"
  by (auto simp: session_reset_at_def split: option.splits dest: clock_at_no_close)

lemma search_session_reset_plain:
  assumes "search_session_reset l = Some t"
  shows "set t \<subseteq> set l \<and> CHR '')'' \<notin> set t"
proof -
  from assms obtain u where "set u \<subseteq> set l" and "session_reset_at u = Some t"
    unfolding search_session_reset_def by (blast dest: search_Some)
  then show ?thesis
    using session_reset_at_subset session_reset_at_no_close by blast
qed

lemma ci_match_no_close:
  assumes "list_all2 ci_eq p q" and "set p \<subseteq> set ''abcdefghijklmnopqrstuvwxyz''"
  shows "CHR '')'' \<notin> set q"
proof
  assume "CHR '')'' \<in> set q"
  then obtain i where i: "i < length q" "q ! i = CHR '')''"
    by (auto simp: in_set_conv_nth)
  with assms(1) have "ci_eq (p ! i) (CHR '')'')" and "i < length p"
    by (auto simp: list_all2_conv_all_nth)
  moreover from this assms(2) have "p ! i \<in> set ''abcdefghijklmnopqrstuvwxyz''"
    using nth_mem by blast
  ultimately show False
    using ci_eq_plain by blast
qed

lemma months_letters: "m \<in> set months \<Longrightarrow> length m = 3 \<and> set m \<subseteq> set ''abcdefghijklmnopqrstuvwxyz''"
  by (auto simp: months_def)

lemma month_at_subset: "month_at s = Some u \<Longrightarrow> set u \<subseteq> set s"
proof -
  assume a: "month_at s = Some u"
  let ?s1 = "dropWhile is_space s"
  from a have u: "u = takeWhile is_space s @ take 3 ?s1 @ takeWhile not_close (drop 3 ?s1)"
    by (auto simp: month_at_def Let_def split: if_splits)
  have "set (takeWhile is_space s) \<subseteq> set s" by (auto dest: set_takeWhileD)
  moreover have s1: "set ?s1 \<subseteq> set s" by (auto dest: set_dropWhileD)
  moreover have "set (take 3 ?s1) \<subseteq> set ?s1" by (rule set_take_subset)
  moreover have "set (takeWhile not_close (drop 3 ?s1)) \<subseteq> set ?s1"
    by (auto dest!: set_takeWhileD in_set_dropD)
  ultimately show ?thesis unfolding u by simp blast
qed

lemma month_at_no_close: "month_at s = Some u \<Longrightarrow> CHR '')'' \<notin> set u"
proof -
  assume a: "month_at s = Some u"
  let ?s1 = "dropWhile is_space s"
  from a have u: "u = takeWhile is_space s @ take 3 ?s1 @ takeWhile not_close (drop 3 ?s1)"
    and ex: "list_ex (\<lambda>m. ci_prefix m ?s1 \<noteq> None) months"
    by (auto simp: month_at_def Let_def split: if_splits)
  from ex obtain m r where m: "m \<in> set months" and p: "ci_prefix m ?s1 = Some r"
    by (auto simp: list_ex_iff)
  from ci_prefix_Some [OF p] months_letters [OF m]
  have "list_all2 ci_eq m (take 3 ?s1)" and "set m \<subseteq> set ''abcdefghijklmnopqrstuvwxyz''"
    by auto
  then have "CHR '')'' \<notin> set (take 3 ?s1)"
    by (rule ci_match_no_close)
  moreover have "CHR '')'' \<notin> set (takeWhile is_space s)"
    by (auto dest!: set_takeWhileD simp: is_space_def)
  moreover have "CHR '')'' \<notin> set (takeWhile not_close (drop 3 ?s1))"
    by (auto dest!: set_takeWhileD simp: not_close_def)
  ultimately show ?thesis unfolding u by simp
qed

lemma weekly_reset_at_cases:
  assumes "weekly_reset_at s = Some t"
  obtains s1 u where "ci_prefix ''reset'' s = Some s1" "month_at s1 = Some u" "t = take 5 s @ u"
  | s1 c r u where "ci_prefix ''reset'' s = Some s1" "s1 = c # r" "ci_eq CHR ''s'' c"
      "month_at r = Some u" "t = take 5 s @ c # u"
  using assms
  by (auto simp: weekly_reset_at_def split: option.splits list.splits if_splits)

lemma reset_prefix:
  assumes "ci_prefix ''reset'' s = Some s1"
  shows "s = take 5 s @ s1" and "CHR '')'' \<notin> set (take 5 s)"
proof -
  have len: "length ''reset'' = 5" by simp
  from ci_prefix_Some [OF assms] have a: "s = take 5 s @ s1" and b: "list_all2 ci_eq ''reset'' (take 5 s)"
    unfolding len by blast+
  show "s = take 5 s @ s1" by (rule a)
  show "CHR '')'' \<notin> set (take 5 s)"
    by (rule ci_match_no_close [OF b]) simp
qed

lemma weekly_reset_at_subset: "weekly_reset_at s = Some t \<Longrightarrow> set t \<subseteq> set s"
proof (erule weekly_reset_at_cases)
  fix s1 u
  assume p: "ci_prefix ''reset'' s = Some s1" and m: "month_at s1 = Some u" and t: "t = take 5 s @ u"
  from reset_prefix(1) [OF p] have "set s = set (take 5 s) \<union> set s1"
    by (metis set_append)
  with month_at_subset [OF m] show "set t \<subseteq> set s"
    unfolding t by auto
next
  fix s1 c r u
  assume p: "ci_prefix ''reset'' s = Some s1" and s1: "s1 = c # r"
    and m: "month_at r = Some u" and t: "t = take 5 s @ c # u"
  from reset_prefix(1) [OF p] have "set s = set (take 5 s) \<union> set s1"
    by (metis set_append)
  with month_at_subset [OF m] s1 show "set t \<subseteq> set s"
    unfolding t by auto
qed

lemma weekly_reset_at_no_close: "weekly_reset_at s = Some t \<Longrightarrow> CHR '')'' \<notin> set t"
proof (erule weekly_reset_at_cases)
  fix s1 u
  assume p: "ci_prefix ''reset'' s = Some s1" and m: "month_at s1 = Some u" and t: "t = take 5 s @ u"
  from reset_prefix(2) [OF p] month_at_no_close [OF m] show "CHR '')'' \<notin> set t"
    unfolding t by simp
next
  fix s1 c r u
  assume p: "ci_prefix ''reset'' s = Some s1" and c: "ci_eq CHR ''s'' c"
    and m: "month_at r = Some u" and t: "t = take 5 s @ c # u"
  from c have "c \<noteq> CHR '')''" by (auto simp: ci_eq_def)
  with reset_prefix(2) [OF p] month_at_no_close [OF m] show "CHR '')'' \<notin> set t"
    unfolding t by simp
qed

lemma drop_resets_subset: "set (drop_resets t) \<subseteq> set t"
proof (cases "ci_prefix ''reset'' t")
  case None
  then show ?thesis by (simp add: drop_resets_def)
next
  case (Some s1)
  from reset_prefix(1) [OF Some] have "set s1 \<subseteq> set t"
    by (metis set_append Un_upper2)
  moreover have "set (dropWhile is_space (opt_s s1)) \<subseteq> set s1"
    using opt_s_subset [of s1] by (auto dest!: set_dropWhileD)
  ultimately show ?thesis using Some by (auto simp: drop_resets_def)
qed

lemma search_weekly_reset_plain:
  assumes "search_weekly_reset l = Some t"
  shows "set t \<subseteq> set l \<and> CHR '')'' \<notin> set t"
proof -
  from assms obtain u where "set u \<subseteq> set l" and "weekly_reset_at u = Some t"
    unfolding search_weekly_reset_def by (blast dest: search_Some)
  then show ?thesis
    using weekly_reset_at_subset weekly_reset_at_no_close by blast
qed

lemma cleaned_lines_no_NL: "l \<in> set (cleaned_lines text) \<Longrightarrow> NL \<notin> set l"
  by (simp add: cleaned_lines_def split_nl_no_NL)

lemma session_reset_in_plain:
  assumes "\<forall>l\<in>set lines. NL \<notin> set l" and "session_reset_in lines i = Some w"
  shows "CHR '')'' \<notin> set w \<and> NL \<notin> set w"
proof -
  from assms(2) obtain t where f: "first_match search_session_reset (window lines i 3) = Some t"
    and w: "w = strip t"
    by (auto simp: session_reset_in_def)
  from first_match_Some [OF f] window_subset obtain l where l: "l \<in> set lines"
    and s: "search_session_reset l = Some t"
    by blast
  from search_session_reset_plain [OF s] l assms(1) have "CHR '')'' \<notin> set t \<and> NL \<notin> set t"
    by blast
  then show ?thesis
    unfolding w using strip_subset [of t] by blast
qed

lemma weekly_reset_in_plain:
  assumes "\<forall>l\<in>set lines. NL \<notin> set l" and "weekly_reset_in lines i = Some w"
  shows "CHR '')'' \<notin> set w \<and> NL \<notin> set w"
proof -
  from assms(2) obtain t where f: "first_match search_weekly_reset (window lines i 5) = Some t"
    and w: "w = strip (drop_resets t)"
    by (auto simp: weekly_reset_in_def)
  from first_match_Some [OF f] window_subset obtain l where l: "l \<in> set lines"
    and s: "search_weekly_reset l = Some t"
    by blast
  from search_weekly_reset_plain [OF s] l assms(1) have "CHR '')'' \<notin> set t \<and> NL \<notin> set t"
    by blast
  then show ?thesis
    unfolding w using strip_subset [of "drop_resets t"] drop_resets_subset [of t] by blast
qed

subsection \<open>The last header line with a match decides a field\<close>

lemma window_take_drop: "window lines i n = take n (drop i lines)"
proof (rule nth_equalityI)
  show "length (window lines i n) = length (take n (drop i lines))"
    by (auto simp: window_def)
next
  fix j
  let ?m = "min (i + n) (length lines)"
  assume "j < length (window lines i n)"
  then have b: "j < length [i ..< ?m]"
    by (simp add: window_def)
  then have c: "i + j < ?m"
    by (simp only: length_upt)
  have "window lines i n ! j = lines ! ([i ..< ?m] ! j)"
    unfolding window_def using b by (rule nth_map)
  also have "[i ..< ?m] ! j = i + j"
    using c by (rule nth_upt)
  finally show "window lines i n ! j = take n (drop i lines) ! j"
    using c by simp
qed

lemma window_append: "window (pre @ xs) (length pre + j) n = window xs j n"
  by (simp add: window_take_drop)

lemma first_match_append:
  "first_match f (xs @ ys) = (case first_match f xs of Some v \<Rightarrow> Some v | None \<Rightarrow> first_match f ys)"
  by (induction xs) (auto split: option.splits)

lemma percent_in_append: "percent_in (pre @ xs) (length pre + j) = percent_in xs j"
  by (simp add: percent_in_def window_append)

lemma session_reset_in_append:
  "session_reset_in (pre @ xs) (length pre + j) = session_reset_in xs j"
  by (simp add: session_reset_in_def window_append)

lemma weekly_reset_in_append:
  "weekly_reset_in (pre @ xs) (length pre + j) = weekly_reset_in xs j"
  by (simp add: weekly_reset_in_def window_append)

lemma fold_field_last_header:
  assumes lines: "lines = pre @ h # post" and h: "hdr h" and w: "srch (length pre) = Some w"
    and later: "\<forall>j<length post. hdr (post ! j) \<longrightarrow> srch (Suc (length pre) + j) = None"
  shows "fold (field_step hdr srch lines) [0 ..< length lines] v = w"
proof -
  let ?k = "length pre"
  have "?k < length lines" using lines by simp
  then have "[0 ..< length lines] = [0 ..< ?k] @ ?k # [Suc ?k ..< length lines]"
    by (metis less_imp_le_nat upt_add_eq_append upt_conv_Cons add_0 le_add_diff_inverse zero_le)
  moreover have "hdr (lines ! ?k)" using lines h by simp
  moreover have "\<forall>i\<in>set [Suc ?k ..< length lines]. hdr (lines ! i) \<longrightarrow> srch i = None"
  proof
    fix i
    assume "i \<in> set [Suc ?k ..< length lines]"
    then have "Suc ?k \<le> i \<and> i < length lines"
      by (simp only: set_upt atLeastLessThan_iff)
    then have "Suc ?k \<le> i" and "i < Suc ?k + length post"
      unfolding lines by (simp_all only: length_append list.size) arith+
    then obtain j where i: "i = Suc ?k + j" and j: "j < length post"
      by (metis le_Suc_ex nat_add_left_cancel_less)
    then have "lines ! i = post ! j" using lines by (simp add: nth_append)
    with later i j show "hdr (lines ! i) \<longrightarrow> srch i = None" by simp
  qed
  ultimately show ?thesis using w by (simp only: field_fold_last)
qed

lemma fold_field_last_header_only:
  assumes "lines = pre @ h # post" and "hdr h" and "srch (length pre) = Some w"
    and "list_all (\<lambda>l. \<not> hdr l) post"
  shows "fold (field_step hdr srch lines) [0 ..< length lines] v = w"
  using assms(1-3)
proof (rule fold_field_last_header)
  from assms(4) show "\<forall>j<length post. hdr (post ! j) \<longrightarrow> srch (Suc (length pre) + j) = None"
    by (simp add: list_all_length)
qed

lemma window_at_append: "window (pre @ xs) (length pre) n = take n xs"
  using window_append [of pre xs 0 n] by (simp add: window_take_drop)

lemma session_lines_eval:
  "session_header ''Current session''"
  "\<not> session_header '' 45%''"
  "\<not> session_header '' Resets 3:00pm (America/NY)''"
  "first_match search_percent [''Current session'', '' 45%'', '' Resets 3:00pm (America/NY)''] = Some ''45''"
  "int_of_digits ''45'' = 45"
  "first_match search_session_reset [''Current session'', '' 45%'', '' Resets 3:00pm (America/NY)'']
     = Some ''3:00pm (America/NY''"
  "strip ''3:00pm (America/NY'' = ''3:00pm (America/NY''"
  by code_simp+

lemma weekly_lines_eval:
  "weekly_header ''Current week (all models)''"
  "\<not> weekly_header '' 12%''"
  "\<not> weekly_header '' Resets Jan 5, 2025''"
  "first_match search_percent [''Current week (all models)'', '' 12%'', '' Resets Jan 5, 2025''] = Some ''12''"
  "int_of_digits ''12'' = 12"
  "first_match search_weekly_reset [''Current week (all models)'', '' 12%'', '' Resets Jan 5, 2025'']
     = Some ''Resets Jan 5, 2025''"
  "strip (drop_resets ''Resets Jan 5, 2025'') = ''Jan 5, 2025''"
  by code_simp+

subsection \<open>The percent search\<close>

lemma percent_in_after: "percent_in (pre @ h # post) (Suc (length pre) + j) = percent_in post j"
  using percent_in_append [of "pre @ [h]" post j] by simp

lemma percent_last_header:
  assumes step: "\<And>i res. f (step_ok (cleaned_lines text) i res) =
      field_step hdr (percent_in (cleaned_lines text)) (cleaned_lines text) i (f res)"
    and lines: "cleaned_lines text = pre @ h # post"
    and ds: "first_match search_percent (take 3 (h # post)) = Some ds"
    and h: "hdr h"
    and later: "finds_nothing hdr (percent_in post) post"
  shows "f (parsed text) = int_of_digits ds"
proof -
  let ?lines = "cleaned_lines text"
  have l: "?lines = split_nl (clean_text text)"
    by (simp add: cleaned_lines_def)
  have w: "percent_in ?lines (length pre) = Some (int_of_digits ds)"
    unfolding lines percent_in_def window_at_append using ds by simp
  have n: "\<forall>j<length post. hdr (post ! j) \<longrightarrow> percent_in ?lines (Suc (length pre) + j) = None"
    unfolding lines percent_in_after using later
    by (simp add: finds_nothing_def list_all_iff)
  show ?thesis
    unfolding parsed_field [of f, OF step l]
    using lines h w n by (rule fold_field_last_header)
qed

lemma space_not_digit: "is_space c \<Longrightarrow> \<not> is_digit c"
  by (auto simp: is_space_def is_digit_def)

lemma percent_not_digit: "\<not> is_digit CHR ''%''" and percent_not_space: "\<not> is_space CHR ''%''"
  by (simp_all add: is_digit_def is_space_def)

lemma digits_stop:
  assumes "list_all is_space ws"
  shows "takeWhile is_digit (ws @ CHR ''%'' # b) = []"
    and "dropWhile is_digit (ws @ CHR ''%'' # b) = ws @ CHR ''%'' # b"
  using assms by (cases ws; simp add: space_not_digit percent_not_digit)+

lemma percent_at_iff: "percent_at s = Some ds \<longleftrightarrow> percent_occurrence s [] ds"
proof
  assume a: "percent_at s = Some ds"
  let ?r = "dropWhile is_digit s"
  from a have ds: "ds = takeWhile is_digit s" and ne: "ds \<noteq> []"
    by (auto simp: percent_at_def Let_def split: if_splits list.splits)
  from a obtain b where b: "dropWhile is_space ?r = CHR ''%'' # b"
    by (auto simp: percent_at_def Let_def split: if_splits list.splits)
  have "s = ds @ ?r"
    unfolding ds by simp
  moreover have "?r = takeWhile is_space ?r @ CHR ''%'' # b"
    using b takeWhile_dropWhile_id [of is_space ?r] by simp
  moreover have "list_all is_digit ds"
    unfolding ds by (auto simp: list_all_iff dest: set_takeWhileD)
  moreover have "list_all is_space (takeWhile is_space ?r)"
    by (auto simp: list_all_iff dest: set_takeWhileD)
  ultimately show "percent_occurrence s [] ds"
    unfolding percent_occurrence_def using ne by (metis append_Nil)
next
  assume "percent_occurrence s [] ds"
  then obtain ws b where s: "s = ds @ ws @ CHR ''%'' # b" and ne: "ds \<noteq> []"
    and d: "list_all is_digit ds" and w: "list_all is_space ws"
    by (auto simp: percent_occurrence_def)
  from d have t: "takeWhile is_digit s = ds"
    unfolding s by (simp add: takeWhile_append2 list_all_iff digits_stop [OF w])
  from d have r: "dropWhile is_digit s = ws @ CHR ''%'' # b"
    unfolding s by (simp add: dropWhile_append2 list_all_iff digits_stop [OF w])
  from w have "dropWhile is_space (ws @ CHR ''%'' # b) = CHR ''%'' # b"
    by (simp add: dropWhile_append2 list_all_iff percent_not_space)
  with t r ne show "percent_at s = Some ds"
    by (simp add: percent_at_def)
qed

lemma percent_occurrence_Nil: "\<not> percent_occurrence [] a ds"
  by (simp add: percent_occurrence_def)

lemma percent_occurrence_Cons:
  "percent_occurrence (c # s) a ds \<longleftrightarrow>
     (a = [] \<and> percent_occurrence (c # s) [] ds) \<or> (\<exists>a'. a = c # a' \<and> percent_occurrence s a' ds)"
  by (cases a) (auto simp: percent_occurrence_def)

lemma search_percent_iff:
  "search_percent l = Some ds \<longleftrightarrow>
     (\<exists>a. percent_occurrence l a ds \<and>
          (\<forall>a' ds'. percent_occurrence l a' ds' \<longrightarrow> length a \<le> length a'))"
  unfolding search_percent_def
proof (induction l)
  case Nil
  show ?case by (simp add: percent_occurrence_Nil)
next
  case (Cons c s)
  show ?case
  proof (cases "percent_at (c # s)")
    case (Some v)
    then have occ: "percent_occurrence (c # s) [] v"
      by (simp add: percent_at_iff)
    have "search percent_at (c # s) = Some ds \<longleftrightarrow> v = ds"
      using Some by simp
    also have "\<dots> \<longleftrightarrow> (\<exists>a. percent_occurrence (c # s) a ds \<and>
          (\<forall>a' ds'. percent_occurrence (c # s) a' ds' \<longrightarrow> length a \<le> length a'))"
    proof
      assume "v = ds"
      with occ show "\<exists>a. percent_occurrence (c # s) a ds \<and>
          (\<forall>a' ds'. percent_occurrence (c # s) a' ds' \<longrightarrow> length a \<le> length a')"
        by (intro exI [of _ "[]"]) simp
    next
      assume "\<exists>a. percent_occurrence (c # s) a ds \<and>
          (\<forall>a' ds'. percent_occurrence (c # s) a' ds' \<longrightarrow> length a \<le> length a')"
      then obtain a where a: "percent_occurrence (c # s) a ds"
        and m: "\<forall>a' ds'. percent_occurrence (c # s) a' ds' \<longrightarrow> length a \<le> length a'"
        by blast
      from m occ have "a = []" by fastforce
      with a have "percent_at (c # s) = Some ds"
        by (simp add: percent_at_iff)
      with Some show "v = ds" by simp
    qed
    finally show ?thesis .
  next
    case None
    then have no: "\<not> percent_occurrence (c # s) [] d" for d
      by (simp add: percent_at_iff [symmetric])
    have shift: "percent_occurrence (c # s) a d \<longleftrightarrow> (\<exists>a'. a = c # a' \<and> percent_occurrence s a' d)" for a d
      using percent_occurrence_Cons [of c s a d] no by blast
    have "search percent_at (c # s) = Some ds \<longleftrightarrow> search percent_at s = Some ds"
      using None by simp
    also have "\<dots> \<longleftrightarrow> (\<exists>a. percent_occurrence s a ds \<and>
          (\<forall>a' ds'. percent_occurrence s a' ds' \<longrightarrow> length a \<le> length a'))"
      by (rule Cons.IH)
    also have "\<dots> \<longleftrightarrow> (\<exists>a. percent_occurrence (c # s) a ds \<and>
          (\<forall>a' ds'. percent_occurrence (c # s) a' ds' \<longrightarrow> length a \<le> length a'))"
    proof
      assume "\<exists>a. percent_occurrence s a ds \<and>
          (\<forall>a' ds'. percent_occurrence s a' ds' \<longrightarrow> length a \<le> length a')"
      then obtain a where a: "percent_occurrence s a ds"
        and m: "\<And>a' ds'. percent_occurrence s a' ds' \<Longrightarrow> length a \<le> length a'"
        by blast
      have "percent_occurrence (c # s) (c # a) ds"
        using a by (simp add: shift)
      moreover have "length (c # a) \<le> length a'" if "percent_occurrence (c # s) a' ds'" for a' ds'
      proof -
        from that obtain a0 where "a' = c # a0" and "percent_occurrence s a0 ds'"
          by (auto simp: shift)
        with m [of a0 ds'] show ?thesis by simp
      qed
      ultimately show "\<exists>a. percent_occurrence (c # s) a ds \<and>
          (\<forall>a' ds'. percent_occurrence (c # s) a' ds' \<longrightarrow> length a \<le> length a')"
        by blast
    next
      assume "\<exists>a. percent_occurrence (c # s) a ds \<and>
          (\<forall>a' ds'. percent_occurrence (c # s) a' ds' \<longrightarrow> length a \<le> length a')"
      then obtain a where a: "percent_occurrence (c # s) a ds"
        and m: "\<And>a' ds'. percent_occurrence (c # s) a' ds' \<Longrightarrow> length a \<le> length a'"
        by blast
      from a obtain a0 where a0: "a = c # a0" and o: "percent_occurrence s a0 ds"
        by (auto simp: shift)
      have "length a0 \<le> length a'" if "percent_occurrence s a' ds'" for a' ds'
      proof -
        from that have "percent_occurrence (c # s) (c # a') ds'"
          by (simp add: shift)
        from m [OF this] a0 show ?thesis by simp
      qed
      with o show "\<exists>a. percent_occurrence s a ds \<and>
          (\<forall>a' ds'. percent_occurrence s a' ds' \<longrightarrow> length a \<le> length a')"
        by blast
    qed
    finally show ?thesis .
  qed
qed

lemma search_percent_None_iff:
  "search_percent l = None \<longleftrightarrow> (\<forall>a ds. \<not> percent_occurrence l a ds)"
  unfolding search_percent_def
proof (induction l)
  case Nil
  show ?case by (simp add: percent_occurrence_Nil)
next
  case (Cons c s)
  show ?case
  proof (cases "percent_at (c # s)")
    case (Some v)
    then have "percent_occurrence (c # s) [] v"
      by (simp add: percent_at_iff)
    with Some show ?thesis by auto
  next
    case None
    then have no: "\<not> percent_occurrence (c # s) [] d" for d
      by (simp add: percent_at_iff [symmetric])
    have shift: "percent_occurrence (c # s) a d \<longleftrightarrow> (\<exists>a'. a = c # a' \<and> percent_occurrence s a' d)" for a d
      using percent_occurrence_Cons [of c s a d] no by blast
    from None have "search percent_at (c # s) = None \<longleftrightarrow> search percent_at s = None"
      by simp
    also have "\<dots> \<longleftrightarrow> (\<forall>a ds. \<not> percent_occurrence s a ds)"
      by (rule Cons.IH)
    also have "\<dots> \<longleftrightarrow> (\<forall>a ds. \<not> percent_occurrence (c # s) a ds)"
      unfolding shift by blast
    finally show ?thesis .
  qed
qed

subsection \<open>Percentages are not negative\<close>

lemma digit_val_nonneg: "is_digit c \<Longrightarrow> 0 \<le> digit_val c"
  by (auto simp: is_digit_def digit_val_def)

lemma foldl_digits_nonneg:
  "0 \<le> n \<Longrightarrow> list_all is_digit ds \<Longrightarrow> 0 \<le> foldl (\<lambda>n c. 10 * n + digit_val c) n ds"
proof (induction ds arbitrary: n)
  case Nil
  then show ?case by simp
next
  case (Cons c ds)
  from Cons.prems have "0 \<le> 10 * n + digit_val c"
    using digit_val_nonneg [of c] by simp
  with Cons show ?case by simp
qed

lemma int_of_digits_nonneg: "list_all is_digit ds \<Longrightarrow> 0 \<le> int_of_digits ds"
  by (simp add: int_of_digits_def foldl_digits_nonneg)

lemma search_percent_digits: "search_percent l = Some ds \<Longrightarrow> list_all is_digit ds"
  by (auto simp: search_percent_iff percent_occurrence_def)

lemma percent_in_nonneg: "percent_in lines i = Some w \<Longrightarrow> 0 \<le> w"
proof -
  assume "percent_in lines i = Some w"
  then obtain ds where f: "first_match search_percent (window lines i 3) = Some ds"
    and w: "w = int_of_digits ds"
    by (auto simp: percent_in_def)
  from first_match_Some [OF f] obtain l where "search_percent l = Some ds"
    by blast
  then show ?thesis
    unfolding w by (intro int_of_digits_nonneg search_percent_digits)
qed

lemma percent_fold_nonneg:
  "0 \<le> fold (field_step hdr (percent_in lines) lines) is (0::int)"
  by (rule field_fold_inv) (auto dest: percent_in_nonneg)

subsection \<open>Returning and raising\<close>

lemma py_error_only: "(e :: py_error) = ValueError"
  by (cases e) simp

lemma session_section_eq:
  "session_section lines i res =
     (if percent_fits lines i then Inr (session_section_ok lines i res) else Inl ValueError)"
  by (simp add: session_section_def session_section_ok_def percent_fits_def py_int_def Let_def
      split: option.splits)

lemma weekly_section_eq:
  "weekly_section lines i res =
     (if percent_fits lines i then Inr (weekly_section_ok lines i res) else Inl ValueError)"
  by (simp add: weekly_section_def weekly_section_ok_def percent_fits_def py_int_def Let_def
      split: option.splits)

lemma sonnet_section_eq:
  "sonnet_section lines i res =
     (if percent_fits lines i then Inr (sonnet_section_ok lines i res) else Inl ValueError)"
  by (simp add: sonnet_section_def sonnet_section_ok_def percent_fits_def py_int_def
      split: option.splits)

lemma step_eq:
  "step lines i res = (if converts_at lines i then Inr (step_ok lines i res) else Inl ValueError)"
  by (simp add: step_def step_ok_def converts_at_def session_section_eq weekly_section_eq
      sonnet_section_eq Let_def)

lemma parse_loop_eq:
  "parse_loop lines i res =
     (if list_all (converts_at lines) [i ..< length lines]
      then Inr (fold (step_ok lines) [i ..< length lines] res)
      else Inl ValueError)"
proof (induction lines i res rule: parse_loop.induct)
  case (1 lines i res)
  show ?case
  proof (cases "i < length lines")
    case False
    then show ?thesis by (subst parse_loop.simps) simp
  next
    case True
    then have u: "[i ..< length lines] = i # [Suc i ..< length lines]"
      by (rule upt_conv_Cons)
    show ?thesis
    proof (cases "converts_at lines i")
      case False
      with True show ?thesis
        by (subst parse_loop.simps) (simp add: step_eq u)
    next
      case c: True
      with True have "step lines i res = Inr (step_ok lines i res)"
        by (simp add: step_eq)
      with True c "1.IH" [of "step_ok lines i res"] show ?thesis
        by (subst parse_loop.simps) (simp add: u)
    qed
  qed
qed

lemma parse_usage_eq:
  "parse_usage text =
     (if converts (cleaned_lines text) then Inr (parsed text) else Inl ValueError)"
  by (simp add: parse_usage_def parsed_def converts_def cleaned_lines_def Let_def parse_loop_eq)

lemma parse_usage_Inr: "parse_usage text = Inr r \<Longrightarrow> r = parsed text"
  by (simp add: parse_usage_eq split: if_splits)

lemma parse_usage_returns: "converts (cleaned_lines text) \<Longrightarrow> parse_usage text = Inr (parsed text)"
  by (simp add: parse_usage_eq)

lemma parse_usage_returns_iff:
  "(\<exists>r. parse_usage text = Inr r) \<longleftrightarrow> converts (cleaned_lines text)"
  by (simp add: parse_usage_eq)

lemma parse_usage_defaults:
  assumes "converts (cleaned_lines text)"
  shows "\<exists>r. parse_usage text = Inr r \<and>
           (finds_nothing session_header (percent_in (cleaned_lines text)) (cleaned_lines text)
              \<longrightarrow> session_percent r = 0) \<and>
           (finds_nothing session_header (session_reset_in (cleaned_lines text)) (cleaned_lines text)
              \<longrightarrow> session_reset r = []) \<and>
           (finds_nothing weekly_header (percent_in (cleaned_lines text)) (cleaned_lines text)
              \<longrightarrow> weekly_percent r = 0) \<and>
           (finds_nothing weekly_header (weekly_reset_in (cleaned_lines text)) (cleaned_lines text)
              \<longrightarrow> weekly_reset r = []) \<and>
           (finds_nothing sonnet_header (percent_in (cleaned_lines text)) (cleaned_lines text)
              \<longrightarrow> sonnet_percent r = 0)"
proof -
  have l: "cleaned_lines text = split_nl (clean_text text)"
    by (simp add: cleaned_lines_def)
  have "parse_usage text = Inr (parsed text)"
    using assms by (rule parse_usage_returns)
  then show ?thesis
    by (simp add: parsed_session_percent [OF l] parsed_session_reset [OF l]
        parsed_weekly_percent [OF l] parsed_weekly_reset [OF l]
        parsed_sonnet_percent [OF l] finds_nothing_fold initial_result_def)
qed

subsection \<open>What later header lines leave in a field\<close>

lemma field_fold_option:
  "fold (field_step hdr srch lines) is (case acc of None \<Rightarrow> v | Some w \<Rightarrow> w) =
   (case fold (\<lambda>i acc. if hdr (lines ! i) then (case srch i of Some w \<Rightarrow> Some w | None \<Rightarrow> acc) else acc)
           is acc of
      None \<Rightarrow> v
    | Some w \<Rightarrow> w)"
proof (induction "is" arbitrary: acc)
  case Nil
  show ?case by simp
next
  case (Cons i "is")
  let ?g = "\<lambda>i acc. if hdr (lines ! i) then (case srch i of Some w \<Rightarrow> Some w | None \<Rightarrow> acc) else acc"
  have "field_step hdr srch lines i (case acc of None \<Rightarrow> v | Some w \<Rightarrow> w) =
        (case ?g i acc of None \<Rightarrow> v | Some w \<Rightarrow> w)"
    by (simp add: field_step_def split: option.splits)
  then show ?case
    by (simp only: fold_Cons comp_apply Cons.IH)
qed

lemma field_fold_last_found:
  "fold (field_step hdr srch lines) [0 ..< length lines] v =
   (case last_found hdr srch lines of None \<Rightarrow> v | Some w \<Rightarrow> w)"
  using field_fold_option [where acc = None]
  by (simp add: last_found_def)

lemma fold_field_shift:
  assumes lines: "lines = pre @ post"
    and shift: "\<And>j. j < length post \<Longrightarrow> srch (length pre + j) = srch' j"
  shows "fold (field_step hdr srch lines) [length pre ..< length lines] u =
         fold (field_step hdr srch' post) [0 ..< length post] u"
proof -
  let ?k = "length pre"
  have "[?k ..< length lines] = map (\<lambda>j. j + ?k) [0 ..< length post]"
    unfolding lines by (simp add: map_add_upt add.commute)
  then have "fold (field_step hdr srch lines) [?k ..< length lines] u =
             fold (field_step hdr srch lines \<circ> (\<lambda>j. j + ?k)) [0 ..< length post] u"
    by (simp only: fold_map)
  also have "\<dots> = fold (field_step hdr srch' post) [0 ..< length post] u"
  proof (rule fold_cong)
    fix j
    assume "j \<in> set [0 ..< length post]"
    then have j: "j < length post" by simp
    then have "lines ! (j + ?k) = post ! j"
      unfolding lines by (simp add: nth_append)
    moreover have "srch (j + ?k) = srch' j"
      using shift [OF j] by (simp add: add.commute)
    ultimately show "(field_step hdr srch lines \<circ> (\<lambda>j. j + ?k)) j = field_step hdr srch' post j"
      by (simp add: field_step_def fun_eq_iff)
  qed simp_all
  finally show ?thesis .
qed

lemma fold_field_split:
  assumes lines: "lines = pre @ post"
    and shift: "\<And>j. j < length post \<Longrightarrow> srch (length pre + j) = srch' j"
  shows "fold (field_step hdr srch lines) [0 ..< length lines] v =
         (case last_found hdr srch' post of
            None \<Rightarrow> fold (field_step hdr srch lines) [0 ..< length pre] v
          | Some w \<Rightarrow> w)"
proof -
  have "length pre \<le> length lines"
    using lines by simp
  then have "[0 ..< length lines] = [0 ..< length pre] @ [length pre ..< length lines]"
    by (metis upt_add_eq_append le_add_diff_inverse zero_le)
  then have "fold (field_step hdr srch lines) [0 ..< length lines] v =
             fold (field_step hdr srch lines) [length pre ..< length lines]
               (fold (field_step hdr srch lines) [0 ..< length pre] v)"
    by simp
  also have "\<dots> = fold (field_step hdr srch' post) [0 ..< length post]
                    (fold (field_step hdr srch lines) [0 ..< length pre] v)"
    using lines shift by (rule fold_field_shift)
  finally show ?thesis
    by (simp only: field_fold_last_found)
qed

lemma fold_field_header_then_plain:
  assumes lines: "lines = pre @ h # mid @ post" and h: "hdr h" and w: "srch (length pre) = Some w"
    and mid: "list_all (\<lambda>l. \<not> hdr l) mid"
  shows "fold (field_step hdr srch lines) [0 ..< length (pre @ h # mid)] v = w"
proof -
  let ?k = "length pre"
  let ?m = "length (pre @ h # mid)"
  have "?k < ?m" by simp
  then have "[0 ..< ?m] = [0 ..< ?k] @ ?k # [Suc ?k ..< ?m]"
    by (metis less_imp_le_nat upt_add_eq_append upt_conv_Cons add_0 le_add_diff_inverse zero_le)
  moreover have "hdr (lines ! ?k)" using lines h by simp
  moreover have "\<forall>i\<in>set [Suc ?k ..< ?m]. hdr (lines ! i) \<longrightarrow> srch i = None"
  proof
    fix i
    assume "i \<in> set [Suc ?k ..< ?m]"
    then have "Suc ?k \<le> i \<and> i < ?m"
      by (simp only: set_upt atLeastLessThan_iff)
    then have "Suc ?k \<le> i" and "i < Suc ?k + length mid"
      by (simp_all only: length_append list.size) arith+
    then obtain j where i: "i = Suc ?k + j" and j: "j < length mid"
      by (metis le_Suc_ex nat_add_left_cancel_less)
    then have "lines ! i = mid ! j" using lines by (simp add: nth_append)
    with mid j show "hdr (lines ! i) \<longrightarrow> srch i = None" by (simp add: list_all_length)
  qed
  ultimately show ?thesis using w by (simp only: field_fold_last)
qed

lemma parsed_after_header:
  assumes step: "\<And>i res. f (step_ok (cleaned_lines text) i res) =
      field_step hdr (srchf (cleaned_lines text)) (cleaned_lines text) i (f res)"
    and shiftf: "\<And>pre xs j. srchf (pre @ xs) (length pre + j) = srchf xs j"
    and lines: "cleaned_lines text = pre @ h # mid @ post"
    and h: "hdr h" and w: "srchf (cleaned_lines text) (length pre) = Some w"
    and mid: "list_all (\<lambda>l. \<not> hdr l) mid"
  shows "f (parsed text) = (case last_found hdr (srchf post) post of None \<Rightarrow> w | Some w' \<Rightarrow> w')"
proof -
  let ?lines = "cleaned_lines text"
  have l: "?lines = split_nl (clean_text text)"
    by (simp add: cleaned_lines_def)
  have eq: "?lines = (pre @ h # mid) @ post"
    using lines by simp
  have sh: "srchf ?lines (length (pre @ h # mid) + j) = srchf post j" for j
    unfolding eq by (rule shiftf)
  have a: "fold (field_step hdr (srchf ?lines) ?lines) [0 ..< length (pre @ h # mid)] v = w" for v
    using lines h w mid by (rule fold_field_header_then_plain)
  have b: "fold (field_step hdr (srchf ?lines) ?lines) [0 ..< length ?lines] v =
           (case last_found hdr (srchf post) post of
              None \<Rightarrow> fold (field_step hdr (srchf ?lines) ?lines) [0 ..< length (pre @ h # mid)] v
            | Some w \<Rightarrow> w)" for v
    using eq sh by (rule fold_field_split)
  show ?thesis
    by (simp only: parsed_field [of f, OF step l] b a)
qed

subsection \<open>A percentage that is not converted\<close>

lemma dropWhile_sp_append:
  "SP \<notin> set t \<Longrightarrow> dropWhile (\<lambda>x. x = SP) (s @ t) = dropWhile (\<lambda>x. x = SP) s @ t"
proof (induction s)
  case Nil
  then show ?case by (cases t) auto
next
  case (Cons c s)
  then show ?case by simp
qed

lemma collapse_spaces_append:
  "SP \<notin> set t \<Longrightarrow> collapse_spaces (s @ t) = collapse_spaces s @ t"
proof (induction s rule: collapse_spaces.induct)
  case 1
  then show ?case by (simp add: collapse_spaces_nospace)
next
  case (2 c s)
  then show ?case by (simp add: dropWhile_sp_append)
qed

lemma clean_text_py:
  assumes "\<forall>c\<in>set s. printable (of_char c)"
  shows "clean_text (py s) = collapse_spaces s"
proof -
  have "ESC \<notin> set (py s)"
    using assms by (auto simp: py_def printable_def)
  moreover have "to_printable (py s) = s"
    using assms by (simp add: to_printable_def py_def map_idI)
  ultimately show ?thesis
    by (simp add: clean_text_def strip_csi_id strip_osc_id)
qed

lemma split_nl_line: "NL \<notin> set b \<Longrightarrow> split_nl b = [b]"
  by (induction b) auto

lemma split_nl_append: "NL \<notin> set a \<Longrightarrow> split_nl (a @ NL # b) = a # split_nl b"
  by (induction a) auto

lemma nines_input:
  "py ''Current session\<newline>'' @ replicate n 0x39 @ py ''%'' =
   py (''Current session\<newline>'' @ replicate n CHR ''9'' @ ''%'')"
  by (simp add: py_def)

lemma cleaned_lines_nines:
  "cleaned_lines (py ''Current session\<newline>'' @ replicate n 0x39 @ py ''%'') =
   [''Current session'', replicate n CHR ''9'' @ ''%'']"
proof -
  let ?t = "replicate n CHR ''9'' @ ''%''"
  have p: "\<forall>c\<in>set (''Current session\<newline>'' @ ?t). printable (of_char c)"
    by (auto simp: printable_def)
  have sp: "SP \<notin> set ?t" and nl: "NL \<notin> set ?t"
    by auto
  have hl: "NL \<notin> set ''Current session''"
    by simp
  have "clean_text (py (''Current session\<newline>'' @ ?t)) = collapse_spaces ''Current session\<newline>'' @ ?t"
    unfolding clean_text_py [OF p] using sp by (rule collapse_spaces_append)
  also have "collapse_spaces ''Current session\<newline>'' = ''Current session'' @ [NL]"
    by code_simp
  finally have c: "clean_text (py (''Current session\<newline>'' @ ?t)) = ''Current session'' @ NL # ?t"
    by simp
  have s: "split_nl (''Current session'' @ NL # ?t) = [''Current session'', ?t]"
    by (simp only: split_nl_append [OF hl] split_nl_line [OF nl])
  show ?thesis
    by (simp only: cleaned_lines_def nines_input c s)
qed

lemma search_percent_nines:
  assumes "0 < n"
  shows "search_percent (replicate n CHR ''9'' @ ''%'') = Some (replicate n CHR ''9'')"
proof -
  let ?ds = "replicate n CHR ''9''"
  have "percent_occurrence (?ds @ ''%'') [] ?ds"
    unfolding percent_occurrence_def using assms
    by (intro exI [of _ "[]"]) (simp add: list_all_iff is_digit_def)
  then have "percent_at (?ds @ ''%'') = Some ?ds"
    by (simp only: percent_at_iff)
  moreover obtain k where "n = Suc k"
    using assms by (cases n) auto
  ultimately show ?thesis
    by (simp add: search_percent_def)
qed

lemma parse_usage_long_percent:
  assumes "int_max_str_digits < n"
  shows "parse_usage (py ''Current session\<newline>'' @ replicate n 0x39 @ py ''%'') = Inl ValueError"
proof -
  let ?lines = "[''Current session'', replicate n CHR ''9'' @ ''%'']"
  have h: "session_header ''Current session''"
    by code_simp
  have n: "search_percent ''Current session'' = None"
    by code_simp
  from assms have "0 < n" by simp
  then have "first_match search_percent (window ?lines 0 3) = Some (replicate n CHR ''9'')"
    by (simp add: window_take_drop n search_percent_nines)
  with assms have "\<not> percent_fits ?lines 0"
    by (simp add: percent_fits_def)
  with h have "\<not> converts_at ?lines 0"
    by (simp add: converts_at_def)
  then have "\<not> converts ?lines"
    by (simp add: converts_def upt_rec)
  then show ?thesis
    by (simp only: parse_usage_eq cleaned_lines_nines if_False)
qed

subsection \<open>Transcripts with no header line\<close>

lemma fold_step_ok_no_headers:
  assumes "list_all (\<lambda>l. \<not> session_header l \<and> \<not> weekly_header l \<and> \<not> sonnet_header l) lines"
    and "set is \<subseteq> {0 ..< length lines}"
  shows "fold (step_ok lines) is res = res"
  using assms(2)
proof (induction "is")
  case Nil
  show ?case by simp
next
  case (Cons i "is")
  then have "lines ! i \<in> set lines" by simp
  with assms(1) have "step_ok lines i res = res"
    by (simp add: step_ok_def list_all_iff)
  with Cons show ?case by simp
qed

lemma converts_no_headers:
  assumes "list_all (\<lambda>l. \<not> session_header l \<and> \<not> weekly_header l \<and> \<not> sonnet_header l) lines"
  shows "converts lines"
  using assms by (simp add: converts_def converts_at_def list_all_iff)

lemma parse_usage_no_headers:
  assumes "list_all (\<lambda>l. \<not> session_header l \<and> \<not> weekly_header l \<and> \<not> sonnet_header l)
             (cleaned_lines text)"
  shows "parse_usage text = Inr (initial_result\<lparr>raw := last_chars 1000 (clean_text text)\<rparr>)"
proof -
  have "parsed text = initial_result\<lparr>raw := last_chars 1000 (clean_text text)\<rparr>"
    unfolding parsed_def
    using assms by (intro fold_step_ok_no_headers) (simp_all add: cleaned_lines_def)
  with converts_no_headers [OF assms] show ?thesis
    by (simp add: parse_usage_eq)
qed

lemma contains_set: "contains sub s \<Longrightarrow> set sub \<subseteq> set s"
proof (induction s)
  case Nil
  then show ?case by simp
next
  case (Cons c s)
  from Cons.prems have "prefix sub (c # s) \<or> contains sub s"
    by simp
  then show ?case
  proof
    assume "prefix sub (c # s)"
    then show ?thesis by (rule set_mono_prefix)
  next
    assume "contains sub s"
    then have "set sub \<subseteq> set s" by (rule Cons.IH)
    then show ?thesis by auto
  qed
qed

lemma header_letter:
  assumes "session_header l \<or> weekly_header l \<or> sonnet_header l"
  shows "CHR ''n'' \<in> lower_char ` set l"
proof -
  from assms have "CHR ''n'' \<in> set (lower (strip l))"
    unfolding session_header_def weekly_header_def sonnet_header_def
    by (auto dest!: contains_set)
  then show ?thesis
    using strip_subset [of l] by (auto simp: lower_def)
qed

lemma lower_char_x: "lower_char CHR ''x'' = CHR ''x''"
  by code_simp

lemma parse_usage_replicate_x:
  "parse_usage (replicate n 0x78) =
   Inr (initial_result\<lparr>raw := last_chars 1000 (replicate n CHR ''x'')\<rparr>)"
proof -
  have "cleaned_lines (replicate n 0x78) = [replicate n CHR ''x'']"
    by (simp add: cleaned_lines_def clean_text_replicate_x split_nl_line)
  moreover have "\<not> (session_header (replicate n CHR ''x'') \<or> weekly_header (replicate n CHR ''x'')
      \<or> sonnet_header (replicate n CHR ''x''))"
    using header_letter [of "replicate n CHR ''x''"] by (auto simp: lower_char_x)
  ultimately have "list_all (\<lambda>l. \<not> session_header l \<and> \<not> weekly_header l \<and> \<not> sonnet_header l)
      (cleaned_lines (replicate n 0x78))"
    by simp
  then show ?thesis
    by (simp only: parse_usage_no_headers clean_text_replicate_x)
qed

subsection \<open>A reset text before a closing parenthesis\<close>

lemma finds_nothing_last_found:
  assumes "finds_nothing hdr srch lines"
  shows "last_found hdr srch lines = None"
proof -
  have "fold (\<lambda>i acc. if hdr (lines ! i) then (case srch i of Some w \<Rightarrow> Some w | None \<Rightarrow> acc) else acc)
          is acc = acc"
    if "\<forall>i\<in>set is. hdr (lines ! i) \<longrightarrow> srch i = None" for "is" acc
    using that by (induction "is" arbitrary: acc) auto
  with assms show ?thesis
    by (simp add: last_found_def finds_nothing_def list_all_iff)
qed

lemma parsed_last_header:
  assumes step: "\<And>i res. f (step_ok (cleaned_lines text) i res) =
      field_step hdr (srchf (cleaned_lines text)) (cleaned_lines text) i (f res)"
    and shiftf: "\<And>pre xs j. srchf (pre @ xs) (length pre + j) = srchf xs j"
    and lines: "cleaned_lines text = pre @ h # post"
    and h: "hdr h" and w: "srchf (cleaned_lines text) (length pre) = Some w"
    and later: "finds_nothing hdr (srchf post) post"
  shows "f (parsed text) = w"
proof -
  have eq: "cleaned_lines text = pre @ h # [] @ post"
    using lines by simp
  have "list_all (\<lambda>l. \<not> hdr l) []"
    by simp
  with step shiftf eq h w
  have "f (parsed text) = (case last_found hdr (srchf post) post of None \<Rightarrow> w | Some w' \<Rightarrow> w')"
    by (rule parsed_after_header)
  then show ?thesis
    by (simp add: finds_nothing_last_found [OF later])
qed

lemma first_match_skip:
  assumes "list_all (\<lambda>l. f l = None) w1" and "f l = Some t"
  shows "first_match f (w1 @ l # w2) = Some t"
  using assms by (induction w1) simp_all

lemma search_lead:
  assumes "list_all is_space lead" and "\<And>c r. is_space c \<Longrightarrow> f (c # r) = None"
  shows "search f (lead @ s) = search f s"
  using assms by (induction lead) simp_all

lemma takeWhile_wider:
  assumes "\<And>c. P c \<Longrightarrow> Q c"
  shows "takeWhile P s @ takeWhile Q (dropWhile P s) = takeWhile Q s"
    and "dropWhile Q (dropWhile P s) = dropWhile Q s"
  by (induction s) (auto simp: assms)

lemma ci_letter:
  assumes "ci_eq p c" and "p \<in> set ''abcdefghijklmnopqrstuvwxyz''"
  shows "\<not> is_space c" and "\<not> is_digit c" and "c \<noteq> CHR '':''"
  using assms by (auto simp: ci_eq_def is_space_def is_digit_def)

lemma ci_prefix_all2: "list_all2 ci_eq p k \<Longrightarrow> ci_prefix p (k @ rest) = Some rest"
  by (induction p k rule: list_all2_induct) simp_all

lemma clock_at_shape:
  assumes "clock_text dc ws x m z"
  shows "clock_at (dc @ ws @ [x, m] @ z @ CHR '')'' # b) = Some (dc @ ws @ [x, m] @ z)"
proof -
  let ?Q = "\<lambda>c. c = CHR '':'' \<or> is_digit c"
  let ?tail = "z @ CHR '')'' # b"
  let ?rest = "ws @ x # m # ?tail"
  let ?s = "dc @ ?rest"
  from assms have dc: "dc \<noteq> []" "is_digit (hd dc)" "\<forall>c\<in>set dc. ?Q c"
    and ws: "\<forall>c\<in>set ws. is_space c"
    and x: "ci_eq CHR ''a'' x \<or> ci_eq CHR ''p'' x" and m: "ci_eq CHR ''m'' m"
    and z: "\<forall>c\<in>set z. not_close c"
    by (simp_all add: clock_text_def list_all_iff)
  from x have xs: "\<not> is_space x" and xq: "\<not> ?Q x"
    using ci_letter [of "CHR ''a''" x] ci_letter [of "CHR ''p''" x] by auto
  have wq: "\<not> ?Q c" if "is_space c" for c
    using that by (auto simp: is_space_def is_digit_def)
  have q0: "takeWhile ?Q ?rest = []" and q1: "dropWhile ?Q ?rest = ?rest"
    using ws xq wq by (cases ws; simp)+
  have tq: "takeWhile ?Q ?s = dc" and dq: "dropWhile ?Q ?s = ?rest"
    using dc(3) q0 q1 by (simp_all add: takeWhile_append2 dropWhile_append2)
  have e1: "takeWhile is_digit ?s \<noteq> []"
    using dc(1,2) by (cases dc) simp_all
  have e2: "takeWhile is_digit ?s @ takeWhile ?Q (dropWhile is_digit ?s) = dc"
    using takeWhile_wider(1) [of is_digit ?Q ?s] tq by simp
  have e3: "dropWhile ?Q (dropWhile is_digit ?s) = ?rest"
    using takeWhile_wider(2) [of is_digit ?Q ?s] dq by simp
  have e4: "takeWhile is_space ?rest = ws" and e5: "dropWhile is_space ?rest = x # m # ?tail"
    using ws xs by (simp_all add: takeWhile_append2 dropWhile_append2)
  have e6: "takeWhile not_close ?tail = z"
    using z by (simp add: takeWhile_append2 not_close_def)
  have "clock_at ?s =
      Some (takeWhile is_digit ?s @ takeWhile ?Q (dropWhile is_digit ?s) @ ws @ [x, m] @ z)"
    using e1 x m by (simp add: clock_at_def Let_def e3 e4 e5 e6)
  also have "\<dots> = Some ((takeWhile is_digit ?s @ takeWhile ?Q (dropWhile is_digit ?s)) @ ws @ [x, m] @ z)"
    by (simp only: append_assoc)
  also have "\<dots> = Some (dc @ ws @ [x, m] @ z)"
    by (simp only: e2)
  finally show ?thesis by simp
qed

lemma resets_wordD:
  assumes "resets_word kw"
  obtains a b c d e f where "kw = [a, b, c, d, e, f]" "ci_eq CHR ''r'' a" "ci_eq CHR ''e'' b"
    "ci_eq CHR ''s'' c" "ci_eq CHR ''e'' d" "ci_eq CHR ''t'' e" "ci_eq CHR ''s'' f"
  using assms unfolding resets_word_def by (auto simp: list_all2_Cons1)

lemma drop_spaces_to:
  assumes "list_all is_space sp" and "\<not> is_space (hd t)" and "t \<noteq> []"
  shows "dropWhile is_space (sp @ t) = t" and "takeWhile is_space (sp @ t) = sp"
  using assms by (cases t; simp add: takeWhile_append2 dropWhile_append2 list_all_iff)+

lemma session_reset_at_space: "is_space c \<Longrightarrow> session_reset_at (c # r) = None"
  by (auto simp: session_reset_at_def ci_eq_def is_space_def)

lemma weekly_reset_at_space: "is_space c \<Longrightarrow> weekly_reset_at (c # r) = None"
  by (auto simp: weekly_reset_at_def ci_eq_def is_space_def)

lemma search_session_reset_shape:
  assumes lead: "list_all is_space lead" and kw: "resets_word kw" and sp: "list_all is_space sp"
    and ct: "clock_text dc ws x m z"
  shows "search_session_reset (lead @ kw @ sp @ dc @ ws @ [x, m] @ z @ CHR '')'' # b) =
         Some (dc @ ws @ [x, m] @ z)"
proof -
  let ?t = "dc @ ws @ [x, m] @ z @ CHR '')'' # b"
  from ct have "?t \<noteq> []" and "\<not> is_space (hd ?t)"
    by (auto simp: clock_text_def is_space_def is_digit_def)
  with sp have d: "dropWhile is_space (sp @ ?t) = ?t"
    using drop_spaces_to(1) by blast
  from kw obtain a b' c d' e f where k: "kw = [a, b', c, d', e, f]" and l: "ci_eq CHR ''r'' a"
    "ci_eq CHR ''e'' b'" "ci_eq CHR ''s'' c" "ci_eq CHR ''e'' d'" "ci_eq CHR ''t'' e" "ci_eq CHR ''s'' f"
    by (rule resets_wordD)
  have "session_reset_at (kw @ sp @ ?t) = clock_at ?t"
    unfolding k using l d by (simp add: session_reset_at_def opt_s_def)
  then have "session_reset_at (kw @ sp @ ?t) = Some (dc @ ws @ [x, m] @ z)"
    by (simp only: clock_at_shape [OF ct])
  then have "search session_reset_at (kw @ sp @ ?t) = Some (dc @ ws @ [x, m] @ z)"
    unfolding k by simp
  then show ?thesis
    unfolding search_session_reset_def
    by (simp only: search_lead [where f = session_reset_at, OF lead session_reset_at_space])
qed

lemma month_at_shape:
  assumes sp: "list_all is_space sp" and dt: "date_text mon z"
  shows "month_at (sp @ mon @ z @ CHR '')'' # b) = Some (sp @ mon @ z)"
proof -
  let ?tail = "z @ CHR '')'' # b"
  from dt obtain mo where mo: "mo \<in> set months" and eq: "list_all2 ci_eq mo mon"
    and z: "z \<noteq> []" "\<forall>c\<in>set z. not_close c"
    by (auto simp: date_text_def list_ex_iff list_all_iff)
  from mo have len: "length mo = 3" and lt: "set mo \<subseteq> set ''abcdefghijklmnopqrstuvwxyz''"
    using months_letters by blast+
  from eq len have lm: "length mon = 3"
    by (simp add: list_all2_lengthD [symmetric])
  then obtain u v w where mon: "mon = [u, v, w]"
    by (auto simp: length_Suc_conv numeral_3_eq_3)
  from eq len mon obtain p q r where "mo = [p, q, r]" and "ci_eq p u"
    by (auto simp: list_all2_Cons2)
  with lt have "\<not> is_space u"
    using ci_letter(1) [of p u] by simp
  with sp have t: "takeWhile is_space (sp @ mon @ ?tail) = sp"
    and d: "dropWhile is_space (sp @ mon @ ?tail) = mon @ ?tail"
    unfolding mon by (simp_all add: takeWhile_append2 dropWhile_append2 list_all_iff)
  have "ci_prefix mo (mon @ ?tail) = Some ?tail"
    using eq by (rule ci_prefix_all2)
  with mo have ex: "list_ex (\<lambda>m. ci_prefix m (mon @ ?tail) \<noteq> None) months"
    by (auto simp: list_ex_iff)
  have body: "takeWhile not_close (drop 3 (mon @ ?tail)) = z"
    using z(2) lm by (simp add: takeWhile_append2 not_close_def)
  have tk: "take 3 (mon @ ?tail) = mon"
    using lm by simp
  show ?thesis
    unfolding month_at_def Let_def t d body tk using ex z(1) by simp
qed

lemma weekly_reset_at_shape:
  assumes kw: "resets_word kw" and sp: "list_all is_space sp" and dt: "date_text mon z"
  shows "weekly_reset_at (kw @ sp @ mon @ z @ CHR '')'' # b) = Some (kw @ sp @ mon @ z)"
proof -
  from kw obtain a b' c d' e f where k: "kw = [a, b', c, d', e, f]" and l: "ci_eq CHR ''r'' a"
    "ci_eq CHR ''e'' b'" "ci_eq CHR ''s'' c" "ci_eq CHR ''e'' d'" "ci_eq CHR ''t'' e" "ci_eq CHR ''s'' f"
    by (rule resets_wordD)
  show ?thesis
    unfolding k using l by (simp add: weekly_reset_at_def month_at_shape [OF sp dt])
qed

lemma search_weekly_reset_shape:
  assumes lead: "list_all is_space lead" and kw: "resets_word kw" and sp: "list_all is_space sp"
    and dt: "date_text mon z"
  shows "search_weekly_reset (lead @ kw @ sp @ mon @ z @ CHR '')'' # b) = Some (kw @ sp @ mon @ z)"
proof -
  from kw obtain a r where "kw = a # r"
    by (auto elim: resets_wordD)
  then have "search weekly_reset_at (kw @ sp @ mon @ z @ CHR '')'' # b) = Some (kw @ sp @ mon @ z)"
    using weekly_reset_at_shape [OF kw sp dt, of b] by simp
  then show ?thesis
    unfolding search_weekly_reset_def
    by (simp only: search_lead [where f = weekly_reset_at, OF lead weekly_reset_at_space])
qed

lemma drop_resets_shape:
  assumes kw: "resets_word kw" and sp: "list_all is_space sp" and dt: "date_text mon z"
  shows "drop_resets (kw @ sp @ mon @ z) = mon @ z"
proof -
  from dt obtain mo where mo: "mo \<in> set months" and eq: "list_all2 ci_eq mo mon"
    by (auto simp: date_text_def list_ex_iff)
  from mo have len: "length mo = 3" and lt: "set mo \<subseteq> set ''abcdefghijklmnopqrstuvwxyz''"
    using months_letters by blast+
  from eq len obtain u v w p q r where mon: "mon = [u, v, w]" and "mo = [p, q, r]" and "ci_eq p u"
    by (auto simp: list_all2_Cons1 length_Suc_conv numeral_3_eq_3)
  with lt have "\<not> is_space u"
    using ci_letter(1) [of p u] by simp
  with sp have d: "dropWhile is_space (sp @ mon @ z) = mon @ z"
    unfolding mon by (simp add: dropWhile_append2 list_all_iff)
  from kw obtain a b' c d' e f where k: "kw = [a, b', c, d', e, f]" and l: "ci_eq CHR ''r'' a"
    "ci_eq CHR ''e'' b'" "ci_eq CHR ''s'' c" "ci_eq CHR ''e'' d'" "ci_eq CHR ''t'' e" "ci_eq CHR ''s'' f"
    by (rule resets_wordD)
  show ?thesis
    unfolding k using l d by (simp add: drop_resets_def opt_s_def)
qed

lemma session_reset_truncated:
  assumes lines: "cleaned_lines text = pre @ h # post" and h: "session_header h"
    and later: "finds_nothing session_header (session_reset_in post) post"
    and win: "take 3 (h # post) = w1 @ (lead @ kw @ sp @ dc @ ws @ [x, m] @ z @ CHR '')'' # b) # w2"
    and w1: "list_all (\<lambda>l. search_session_reset l = None) w1"
    and lead: "list_all is_space lead" and kw: "resets_word kw" and sp: "list_all is_space sp"
    and ct: "clock_text dc ws x m z"
  shows "session_reset (parsed text) = strip (dc @ ws @ [x, m] @ z)"
proof -
  let ?lines = "cleaned_lines text"
  have "first_match search_session_reset (take 3 (h # post)) = Some (dc @ ws @ [x, m] @ z)"
    unfolding win using w1 search_session_reset_shape [OF lead kw sp ct]
    by (rule first_match_skip)
  then have w: "session_reset_in ?lines (length pre) = Some (strip (dc @ ws @ [x, m] @ z))"
    unfolding lines session_reset_in_def window_at_append by simp
  show ?thesis
    using session_reset_step session_reset_in_append lines h w later
    by (rule parsed_last_header)
qed

lemma weekly_reset_truncated:
  assumes lines: "cleaned_lines text = pre @ h # post" and h: "weekly_header h"
    and later: "finds_nothing weekly_header (weekly_reset_in post) post"
    and win: "take 5 (h # post) = w1 @ (lead @ kw @ sp @ mon @ z @ CHR '')'' # b) # w2"
    and w1: "list_all (\<lambda>l. search_weekly_reset l = None) w1"
    and lead: "list_all is_space lead" and kw: "resets_word kw" and sp: "list_all is_space sp"
    and dt: "date_text mon z"
  shows "weekly_reset (parsed text) = strip (mon @ z)"
proof -
  let ?lines = "cleaned_lines text"
  have "first_match search_weekly_reset (take 5 (h # post)) = Some (kw @ sp @ mon @ z)"
    unfolding win using w1 search_weekly_reset_shape [OF lead kw sp dt]
    by (rule first_match_skip)
  then have w: "weekly_reset_in ?lines (length pre) = Some (strip (mon @ z))"
    unfolding lines weekly_reset_in_def window_at_append
    by (simp add: drop_resets_shape [OF kw sp dt])
  show ?thesis
    using weekly_reset_step weekly_reset_in_append lines h w later
    by (rule parsed_last_header)
qed

lemma parsed_resets_plain:
  "CHR '')'' \<notin> set (session_reset (parsed text)) \<and>
   NL \<notin> set (session_reset (parsed text)) \<and>
   CHR '')'' \<notin> set (weekly_reset (parsed text)) \<and>
   NL \<notin> set (weekly_reset (parsed text))"
proof -
  let ?P = "\<lambda>w. CHR '')'' \<notin> set w \<and> NL \<notin> set w"
  let ?lines = "cleaned_lines text"
  have l: "?lines = split_nl (clean_text text)"
    by (simp add: cleaned_lines_def)
  have nl: "\<forall>l\<in>set ?lines. NL \<notin> set l"
    by (simp add: cleaned_lines_no_NL)
  have "?P (fold (field_step session_header (session_reset_in ?lines) ?lines) [0 ..< length ?lines] [])"
  proof (rule field_fold_inv)
    show "?P []" by simp
  next
    fix i w
    assume "session_reset_in ?lines i = Some w"
    with nl show "?P w" by (rule session_reset_in_plain)
  qed
  moreover
  have "?P (fold (field_step weekly_header (weekly_reset_in ?lines) ?lines) [0 ..< length ?lines] [])"
  proof (rule field_fold_inv)
    show "?P []" by simp
  next
    fix i w
    assume "weekly_reset_in ?lines i = Some w"
    with nl show "?P w" by (rule weekly_reset_in_plain)
  qed
  ultimately show ?thesis
    by (simp add: parsed_session_reset [OF l] parsed_weekly_reset [OF l] initial_result_def)
qed

section \<open>Properties\<close>

subsection \<open>The conversion that raises\<close>

text \<open>
  Claim C1 says that \<^verbatim>\<open>parse_usage\<close> returns a record for every input and never raises.
  The code misses a case: \<^verbatim>\<open>int\<close> refuses a string of more than 4300 digits, and
  \<^verbatim>\<open>parse_usage\<close> does not catch its \<^verbatim>\<open>ValueError\<close>. For the header line
  \<^verbatim>\<open>Current session\<close> followed by a line of 4301 digits \<^verbatim>\<open>9\<close> and a percent sign, the
  call raises. (\<open>parse_usage_returns_iff\<close>: the call returns exactly when every percentage
  it converts has at most 4300 digits. \<open>parse_usage_defaults\<close>: it then returns a record of
  the six fields in which a field holds its default, 0 or the empty string, whenever on
  every header line of its section the search for it finds nothing.)
\<close>

theorem parse_usage_raises:
  "parse_usage (py ''Current session\<newline>'' @ replicate 4301 0x39 @ py ''%'') = Inl ValueError"
  by (rule parse_usage_long_percent) (simp add: int_max_str_digits_def)

subsection \<open>Percentages are not clamped\<close>

text \<open>
  Claim C4. A percent field is the plain integer value of the digits found, never
  negative and with no bound applied: for the header \<^verbatim>\<open>Current session\<close> followed by
  the line \<^verbatim>\<open>250%\<close>, \<^verbatim>\<open>parse_usage\<close> returns the value 250, above the documented range
  0-100, as it is. \<^verbatim>\<open>parse_usage\<close> returns a record exactly when every percentage it
  converts has at most 4300 digits, and in every record it returns the three percentages
  are not negative.
\<close>

theorem percent_not_clamped:
  "parse_usage (py ''Current session\<newline>250%'') =
     Inr \<lparr>session_percent = 250, session_reset = [], weekly_percent = 0, weekly_reset = [],
          sonnet_percent = 0, raw = ''Current session\<newline>250%''\<rparr> \<and>
   ((\<exists>r. parse_usage text = Inr r) \<longleftrightarrow> converts (cleaned_lines text)) \<and>
   (\<forall>r. parse_usage text = Inr r \<longrightarrow>
      0 \<le> session_percent r \<and> 0 \<le> weekly_percent r \<and> 0 \<le> sonnet_percent r)"
proof (intro conjI allI impI)
  show "parse_usage (py ''Current session\<newline>250%'') =
     Inr \<lparr>session_percent = 250, session_reset = [], weekly_percent = 0, weekly_reset = [],
          sonnet_percent = 0, raw = ''Current session\<newline>250%''\<rparr>"
    by code_simp
  show "(\<exists>r. parse_usage text = Inr r) \<longleftrightarrow> converts (cleaned_lines text)"
    by (rule parse_usage_returns_iff)
  fix r
  assume "parse_usage text = Inr r"
  then have r: "r = parsed text"
    by (rule parse_usage_Inr)
  have l: "cleaned_lines text = split_nl (clean_text text)"
    by (simp add: cleaned_lines_def)
  show "0 \<le> session_percent r" "0 \<le> weekly_percent r" "0 \<le> sonnet_percent r"
    unfolding r
    by (simp_all add: parsed_session_percent [OF l] parsed_weekly_percent [OF l]
        parsed_sonnet_percent [OF l] initial_result_def percent_fold_nonneg)
qed

text \<open>
  The second part at a transcript of the weekly section, with a percentage above 100.
\<close>

theorem percent_not_clamped_witness:
  "parse_usage (py ''Current week (all models)\<newline> 120 %'') =
     Inr \<lparr>session_percent = 0, session_reset = [], weekly_percent = 120, weekly_reset = [],
          sonnet_percent = 0, raw = ''Current week (all models)\<newline> 120 %''\<rparr> \<and>
   0 \<le> session_percent \<lparr>session_percent = 0, session_reset = [], weekly_percent = 120,
          weekly_reset = [], sonnet_percent = 0, raw = ''Current week (all models)\<newline> 120 %''\<rparr> \<and>
   0 \<le> weekly_percent \<lparr>session_percent = 0, session_reset = [], weekly_percent = 120,
          weekly_reset = [], sonnet_percent = 0, raw = ''Current week (all models)\<newline> 120 %''\<rparr> \<and>
   0 \<le> sonnet_percent \<lparr>session_percent = 0, session_reset = [], weekly_percent = 120,
          weekly_reset = [], sonnet_percent = 0, raw = ''Current week (all models)\<newline> 120 %''\<rparr>"
proof -
  have "parse_usage (py ''Current week (all models)\<newline> 120 %'') =
     Inr \<lparr>session_percent = 0, session_reset = [], weekly_percent = 120, weekly_reset = [],
          sonnet_percent = 0, raw = ''Current week (all models)\<newline> 120 %''\<rparr>"
    by code_simp
  with percent_not_clamped [of "py ''Current week (all models)\<newline> 120 %''"] show ?thesis
    by blast
qed

subsection \<open>The diagnostic field\<close>

text \<open>
  Claim C5. \<^verbatim>\<open>parse_usage\<close> returns a record exactly when every percentage it converts
  has at most 4300 digits. In every record it returns, the \<^verbatim>\<open>raw\<close> field has at most
  1000 characters and is a suffix of the cleaned text; when the cleaned text has more than
  1000 characters the field has exactly 1000 of them (so it is the final 1000 characters),
  and when the cleaned text has 1000 characters or fewer the field is the whole cleaned
  text.
\<close>

theorem raw_is_tail:
  "((\<exists>r. parse_usage text = Inr r) \<longleftrightarrow> converts (cleaned_lines text)) \<and>
   (\<forall>r. parse_usage text = Inr r \<longrightarrow>
      length (raw r) \<le> 1000 \<and>
      suffix (raw r) (clean_text text) \<and>
      (1000 < length (clean_text text) \<longrightarrow> length (raw r) = 1000) \<and>
      (length (clean_text text) \<le> 1000 \<longrightarrow> raw r = clean_text text))"
proof (intro conjI allI impI)
  show "(\<exists>r. parse_usage text = Inr r) \<longleftrightarrow> converts (cleaned_lines text)"
    by (rule parse_usage_returns_iff)
next
  fix r
  assume "parse_usage text = Inr r"
  then have "r = parsed text"
    by (rule parse_usage_Inr)
  then have r: "raw r = last_chars 1000 (clean_text text)"
    by (simp add: parsed_raw)
  show "length (raw r) \<le> 1000" and "suffix (raw r) (clean_text text)"
    unfolding r by (simp_all add: last_chars_length last_chars_suffix)
  show "length (raw r) = 1000" if "1000 < length (clean_text text)"
    unfolding r using that by (simp add: last_chars_length)
  show "raw r = clean_text text" if "length (clean_text text) \<le> 1000"
    unfolding r using that by (simp add: last_chars_def)
qed

text \<open>
  Both cases at concrete inputs: 1001 letters \<^verbatim>\<open>x\<close>, of which the last 1000 are kept,
  and a short line (with a double space, which cleaning collapses), kept whole.
\<close>

theorem raw_is_tail_witness:
  "1000 < length (clean_text (replicate 1001 0x78)) \<and>
   (\<exists>r. parse_usage (replicate 1001 0x78) = Inr r \<and> raw r = replicate 1000 CHR ''x'') \<and>
   length (clean_text (py ''Sonnet  only 7%'')) \<le> 1000 \<and>
   (\<exists>r. parse_usage (py ''Sonnet  only 7%'') = Inr r \<and> raw r = ''Sonnet only 7%'')"
proof -
  let ?L = "replicate 1001 (0x78 :: nat)"
  let ?S = "py ''Sonnet  only 7%''"
  have cl: "clean_text ?L = replicate 1001 CHR ''x''"
    by (rule clean_text_replicate_x)
  have h1: "1000 < length (clean_text ?L)"
    by (simp only: cl length_replicate)
  have cs: "clean_text ?S = ''Sonnet only 7%''"
    by code_simp
  have h2: "length (clean_text ?S) \<le> 1000"
    unfolding cs by simp
  obtain r1 where p1: "parse_usage ?L = Inr r1"
    using parse_usage_replicate_x [of 1001] by blast
  with raw_is_tail [of ?L] h1
  have "suffix (raw r1) (clean_text ?L)" and len: "length (raw r1) = 1000"
    by blast+
  then have "suffix (raw r1) (replicate 1001 CHR ''x'')"
    by (simp only: cl)
  from suffix_replicate [OF this len] have r1: "raw r1 = replicate 1000 CHR ''x''" .
  have "parse_usage ?S =
      Inr \<lparr>session_percent = 0, session_reset = [], weekly_percent = 0, weekly_reset = [],
           sonnet_percent = 7, raw = ''Sonnet only 7%''\<rparr>"
    by code_simp
  then obtain r2 where p2: "parse_usage ?S = Inr r2"
    by blast
  with raw_is_tail [of ?S] h2 have "raw r2 = clean_text ?S"
    by blast
  then have r2: "raw r2 = ''Sonnet only 7%''"
    by (simp only: cs)
  from h1 p1 r1 h2 p2 r2 show ?thesis by blast
qed

text \<open>
  Claim C10. \<^verbatim>\<open>parse_usage\<close> returns a record exactly when every percentage it converts
  has at most 4300 digits. In every record it returns, each character of the \<^verbatim>\<open>raw\<close>
  field is a printable ASCII character (0x20 to 0x7E) or a newline, and no two
  neighbouring characters of the field are both spaces.
\<close>

theorem raw_printable_single_spaced:
  "((\<exists>r. parse_usage text = Inr r) \<longleftrightarrow> converts (cleaned_lines text)) \<and>
   (\<forall>r. parse_usage text = Inr r \<longrightarrow>
      list_all (\<lambda>c. (0x20 \<le> (of_char c :: nat) \<and> (of_char c :: nat) \<le> 0x7E) \<or> c = NL) (raw r) \<and>
      no_double_space (raw r))"
proof (intro conjI allI impI)
  show "(\<exists>r. parse_usage text = Inr r) \<longleftrightarrow> converts (cleaned_lines text)"
    by (rule parse_usage_returns_iff)
next
  fix r
  assume "parse_usage text = Inr r"
  then have "r = parsed text"
    by (rule parse_usage_Inr)
  then have r: "raw r = last_chars 1000 (clean_text text)"
    by (simp add: parsed_raw)
  have sub: "set (raw r) \<subseteq> set (clean_text text)"
    by (simp add: r last_chars_def set_drop_subset)
  have "(0x20 \<le> (of_char c :: nat) \<and> (of_char c :: nat) \<le> 0x7E) \<or> c = NL"
    if "c \<in> set (raw r)" for c
  proof -
    from that sub have "printable (of_char c)"
      by (auto intro: clean_text_printable)
    then show ?thesis
      by (simp add: printable_def of_char_NL)
  qed
  then show "list_all (\<lambda>c. (0x20 \<le> (of_char c :: nat) \<and> (of_char c :: nat) \<le> 0x7E) \<or> c = NL) (raw r)"
    by (simp add: list_all_iff)
  show "no_double_space (raw r)"
    by (simp add: r last_chars_def clean_text_def no_double_space_drop collapse_spaces_no_double)
qed

text \<open>
  A transcript with an escape sequence, a tab, a character outside ASCII and a run of
  spaces: the tab and the character become spaces, and the run is collapsed.
\<close>

theorem raw_printable_single_spaced_witness:
  "parse_usage ([0x1B, 0x5B, 0x31, 0x6D] @ py ''Usage'' @ [0x09, 0xE9] @ py ''   7%\<newline>ok'') =
     Inr \<lparr>session_percent = 0, session_reset = [], weekly_percent = 0, weekly_reset = [],
          sonnet_percent = 0, raw = ''Usage 7%\<newline>ok''\<rparr> \<and>
   list_all (\<lambda>c. (0x20 \<le> (of_char c :: nat) \<and> (of_char c :: nat) \<le> 0x7E) \<or> c = NL) ''Usage 7%\<newline>ok'' \<and>
   no_double_space ''Usage 7%\<newline>ok''"
proof -
  let ?X = "[0x1B, 0x5B, 0x31, 0x6D] @ py ''Usage'' @ [0x09, 0xE9] @ py ''   7%\<newline>ok''"
  let ?R = "\<lparr>session_percent = 0, session_reset = [], weekly_percent = 0, weekly_reset = [],
          sonnet_percent = 0, raw = ''Usage 7%\<newline>ok''\<rparr>"
  have p: "parse_usage ?X = Inr ?R"
    by code_simp
  with raw_printable_single_spaced [of ?X]
  have "list_all (\<lambda>c. (0x20 \<le> (of_char c :: nat) \<and> (of_char c :: nat) \<le> 0x7E) \<or> c = NL) (raw ?R)"
    and "no_double_space (raw ?R)"
    by blast+
  with p show ?thesis
    by simp
qed

subsection \<open>Stripping control sequences from cleaned text\<close>

text \<open>
  Claim C6. For every input, the two substitutions that remove control sequences, applied
  to the text that the whole cleaning pipeline returns, leave that text unchanged: the
  cleaned text holds no escape character.
\<close>

theorem strip_idempotent_on_clean:
  "strip_osc (strip_csi (py (clean_text text))) = py (clean_text text)"
  by (simp add: strip_csi_id strip_osc_id clean_text_no_esc)

subsection \<open>No header line\<close>

text \<open>
  Claim C8. When no cleaned line is a header line of any of the three sections,
  \<^verbatim>\<open>parse_usage\<close> returns a record in which the three percentages are 0, the two reset
  texts are empty, and \<^verbatim>\<open>raw\<close> is the tail of the cleaned text (its last 1000
  characters, or all of it).
\<close>

theorem no_headers_defaults:
  assumes "list_all (\<lambda>l. \<not> session_header l \<and> \<not> weekly_header l \<and> \<not> sonnet_header l)
             (cleaned_lines text)"
  shows "parse_usage text =
           Inr \<lparr>session_percent = 0, session_reset = [], weekly_percent = 0, weekly_reset = [],
                sonnet_percent = 0, raw = last_chars 1000 (clean_text text)\<rparr>"
  using parse_usage_no_headers [OF assms] by (simp add: initial_result_def)

text \<open>
  A transcript with a percentage and a reset time, and no section header: the phrase
  \<^verbatim>\<open>current week\<close> alone, without \<^verbatim>\<open>all models\<close>, is not one.
\<close>

theorem no_headers_defaults_witness:
  "list_all (\<lambda>l. \<not> session_header l \<and> \<not> weekly_header l \<and> \<not> sonnet_header l)
     (cleaned_lines (py ''Welcome back!\<newline>  Current   week: 12%\<newline>resets 3pm'')) \<and>
   parse_usage (py ''Welcome back!\<newline>  Current   week: 12%\<newline>resets 3pm'') =
     Inr \<lparr>session_percent = 0, session_reset = [], weekly_percent = 0, weekly_reset = [],
          sonnet_percent = 0, raw = ''Welcome back!\<newline> Current week: 12%\<newline>resets 3pm''\<rparr>"
proof -
  let ?X = "py ''Welcome back!\<newline>  Current   week: 12%\<newline>resets 3pm''"
  have ct: "clean_text ?X = ''Welcome back!\<newline> Current week: 12%\<newline>resets 3pm''"
    by code_simp
  have cl: "cleaned_lines ?X = [''Welcome back!'', '' Current week: 12%'', ''resets 3pm'']"
    unfolding cleaned_lines_def ct by code_simp
  have h: "list_all (\<lambda>l. \<not> session_header l \<and> \<not> weekly_header l \<and> \<not> sonnet_header l)
             (cleaned_lines ?X)"
    unfolding cl by code_simp
  have c: "last_chars 1000 (clean_text ?X) = ''Welcome back!\<newline> Current week: 12%\<newline>resets 3pm''"
    unfolding ct by code_simp
  from no_headers_defaults [OF h] h c show ?thesis
    by simp
qed

subsection \<open>The reset texts\<close>

text \<open>
  Claim C9. \<^verbatim>\<open>parse_usage\<close> returns a record exactly when every percentage it converts
  has at most 4300 digits. In every record it returns, neither \<^verbatim>\<open>session_reset\<close> nor
  \<^verbatim>\<open>weekly_reset\<close> holds a closing parenthesis or a newline. A reset text with a
  parenthesized suffix is returned cut before the closing parenthesis:

  \<^item> Take a session header line \<open>h\<close> such that no later session header line has a reset
    time in its window, and let the first line with a reset time among \<open>h\<close> and the two
    lines after it be the word \<^verbatim>\<open>resets\<close> (in any letter case, after white space only),
    white space, a clock text (digits and colons starting with a digit, white space,
    \<^verbatim>\<open>am\<close> or \<^verbatim>\<open>pm\<close> in any letter case, characters \<open>z\<close> other than a closing
    parenthesis), and then a closing parenthesis. Then \<^verbatim>\<open>session_reset\<close> is the clock
    text up to the end of \<open>z\<close>, stripped.

  \<^item> Take a header line \<open>h'\<close> of the weekly section such that no later one has a reset
    date in its window, and let the first line with a reset date among \<open>h'\<close> and the
    four lines after it be the word \<^verbatim>\<open>resets\<close>, white space, the three letters of a
    month, at least one character \<open>z'\<close> other than a closing parenthesis, and then a
    closing parenthesis. Then \<^verbatim>\<open>weekly_reset\<close> is the month with \<open>z'\<close>, stripped.
\<close>

theorem reset_fields_plain:
  "((\<exists>r. parse_usage text = Inr r) \<longleftrightarrow> converts (cleaned_lines text)) \<and>
   (parse_usage text = Inr r \<longrightarrow>
      CHR '')'' \<notin> set (session_reset r) \<and>
      NL \<notin> set (session_reset r) \<and>
      CHR '')'' \<notin> set (weekly_reset r) \<and>
      NL \<notin> set (weekly_reset r) \<and>
      (cleaned_lines text = pre @ h # post \<and> session_header h \<and>
       finds_nothing session_header (session_reset_in post) post \<and>
       take 3 (h # post) = w1 @ (lead @ kw @ sp @ dc @ ws @ [x, m] @ z @ CHR '')'' # b) # w2 \<and>
       list_all (\<lambda>l. search_session_reset l = None) w1 \<and>
       list_all is_space lead \<and> resets_word kw \<and> list_all is_space sp \<and>
       clock_text dc ws x m z
       \<longrightarrow> session_reset r = strip (dc @ ws @ [x, m] @ z)) \<and>
      (cleaned_lines text = pre' @ h' # post' \<and> weekly_header h' \<and>
       finds_nothing weekly_header (weekly_reset_in post') post' \<and>
       take 5 (h' # post') = w1' @ (lead' @ kw' @ sp' @ mon @ z' @ CHR '')'' # b') # w2' \<and>
       list_all (\<lambda>l. search_weekly_reset l = None) w1' \<and>
       list_all is_space lead' \<and> resets_word kw' \<and> list_all is_space sp' \<and>
       date_text mon z'
       \<longrightarrow> weekly_reset r = strip (mon @ z')))"
proof (intro conjI impI)
  show "(\<exists>r. parse_usage text = Inr r) \<longleftrightarrow> converts (cleaned_lines text)"
    by (rule parse_usage_returns_iff)
next
  assume "parse_usage text = Inr r"
  then have r: "r = parsed text"
    by (rule parse_usage_Inr)
  show "CHR '')'' \<notin> set (session_reset r)" and "NL \<notin> set (session_reset r)"
    and "CHR '')'' \<notin> set (weekly_reset r)" and "NL \<notin> set (weekly_reset r)"
    unfolding r using parsed_resets_plain [of "text"] by blast+
  show "session_reset r = strip (dc @ ws @ [x, m] @ z)"
    if "cleaned_lines text = pre @ h # post \<and> session_header h \<and>
       finds_nothing session_header (session_reset_in post) post \<and>
       take 3 (h # post) = w1 @ (lead @ kw @ sp @ dc @ ws @ [x, m] @ z @ CHR '')'' # b) # w2 \<and>
       list_all (\<lambda>l. search_session_reset l = None) w1 \<and>
       list_all is_space lead \<and> resets_word kw \<and> list_all is_space sp \<and>
       clock_text dc ws x m z"
    unfolding r using that by (intro session_reset_truncated) blast+
  show "weekly_reset r = strip (mon @ z')"
    if "cleaned_lines text = pre' @ h' # post' \<and> weekly_header h' \<and>
       finds_nothing weekly_header (weekly_reset_in post') post' \<and>
       take 5 (h' # post') = w1' @ (lead' @ kw' @ sp' @ mon @ z' @ CHR '')'' # b') # w2' \<and>
       list_all (\<lambda>l. search_weekly_reset l = None) w1' \<and>
       list_all is_space lead' \<and> resets_word kw' \<and> list_all is_space sp' \<and>
       date_text mon z'"
    unfolding r using that by (intro weekly_reset_truncated) blast+
qed

text \<open>
  A transcript with both sections, each reset text followed by a time zone in
  parentheses: the time of the session after \<^verbatim>\<open>Resets\<close>, the date of the week after
  \<^verbatim>\<open>resets\<close>.
\<close>

theorem reset_fields_plain_witness:
  "cleaned_lines (py ''Current session\<newline> 45%\<newline> Resets 3:00pm (America/NY)\<newline>Current week (all models)\<newline> 12%\<newline> resets Jan 5, 3pm (America/NY)'') =
     [''Current session'', '' 45%'', '' Resets 3:00pm (America/NY)'',
      ''Current week (all models)'', '' 12%'', '' resets Jan 5, 3pm (America/NY)''] \<and>
   session_header ''Current session'' \<and>
   finds_nothing session_header
     (session_reset_in ['' 45%'', '' Resets 3:00pm (America/NY)'',
        ''Current week (all models)'', '' 12%'', '' resets Jan 5, 3pm (America/NY)''])
     ['' 45%'', '' Resets 3:00pm (America/NY)'',
      ''Current week (all models)'', '' 12%'', '' resets Jan 5, 3pm (America/NY)''] \<and>
   list_all (\<lambda>l. search_session_reset l = None) [''Current session'', '' 45%''] \<and>
   list_all is_space '' '' \<and> resets_word ''Resets'' \<and>
   clock_text ''3:00'' [] CHR ''p'' CHR ''m'' '' (America/NY'' \<and>
   weekly_header ''Current week (all models)'' \<and>
   finds_nothing weekly_header
     (weekly_reset_in ['' 12%'', '' resets Jan 5, 3pm (America/NY)''])
     ['' 12%'', '' resets Jan 5, 3pm (America/NY)''] \<and>
   list_all (\<lambda>l. search_weekly_reset l = None) [''Current week (all models)'', '' 12%''] \<and>
   resets_word ''resets'' \<and>
   date_text ''Jan'' '' 5, 3pm (America/NY'' \<and>
   (\<exists>r. parse_usage (py ''Current session\<newline> 45%\<newline> Resets 3:00pm (America/NY)\<newline>Current week (all models)\<newline> 12%\<newline> resets Jan 5, 3pm (America/NY)'') = Inr r \<and>
      session_reset r = ''3:00pm (America/NY'' \<and>
      weekly_reset r = ''Jan 5, 3pm (America/NY'' \<and>
      CHR '')'' \<notin> set (session_reset r) \<and> NL \<notin> set (session_reset r) \<and>
      CHR '')'' \<notin> set (weekly_reset r) \<and> NL \<notin> set (weekly_reset r))"
proof -
  let ?X = "py ''Current session\<newline> 45%\<newline> Resets 3:00pm (America/NY)\<newline>Current week (all models)\<newline> 12%\<newline> resets Jan 5, 3pm (America/NY)''"
  let ?l0 = "''Current session''" and ?l1 = "'' 45%''" and ?l2 = "'' Resets 3:00pm (America/NY)''"
    and ?l3 = "''Current week (all models)''" and ?l4 = "'' 12%''"
    and ?l5 = "'' resets Jan 5, 3pm (America/NY)''"
  have cl: "cleaned_lines ?X = [?l0, ?l1, ?l2, ?l3, ?l4, ?l5]"
    by code_simp
  have cv: "converts (cleaned_lines ?X)"
    unfolding cl by code_simp
  have c1: "cleaned_lines ?X = [] @ ?l0 # [?l1, ?l2, ?l3, ?l4, ?l5]"
    and c2: "cleaned_lines ?X = [?l0, ?l1, ?l2] @ ?l3 # [?l4, ?l5]"
    using cl by simp_all
  have s1: "session_header ?l0"
    and s2: "finds_nothing session_header (session_reset_in [?l1, ?l2, ?l3, ?l4, ?l5])
               [?l1, ?l2, ?l3, ?l4, ?l5]"
    and s3: "list_all (\<lambda>l. search_session_reset l = None) [?l0, ?l1]"
    and s4: "list_all is_space '' ''" "resets_word ''Resets''"
    and s5: "clock_text ''3:00'' [] CHR ''p'' CHR ''m'' '' (America/NY''"
    and s6: "strip (''3:00'' @ [] @ [CHR ''p'', CHR ''m''] @ '' (America/NY'') = ''3:00pm (America/NY''"
    by code_simp+
  have w1: "weekly_header ?l3"
    and w2: "finds_nothing weekly_header (weekly_reset_in [?l4, ?l5]) [?l4, ?l5]"
    and w3: "list_all (\<lambda>l. search_weekly_reset l = None) [?l3, ?l4]"
    and w4: "resets_word ''resets''"
    and w5: "date_text ''Jan'' '' 5, 3pm (America/NY''"
    and w6: "strip (''Jan'' @ '' 5, 3pm (America/NY'') = ''Jan 5, 3pm (America/NY''"
    by code_simp+
  have t3: "take 3 (?l0 # [?l1, ?l2, ?l3, ?l4, ?l5]) =
      [?l0, ?l1] @ ('' '' @ ''Resets'' @ '' '' @ ''3:00'' @ [] @ [CHR ''p'', CHR ''m''] @
        '' (America/NY'' @ CHR '')'' # []) # []"
    by simp
  have t5: "take 5 (?l3 # [?l4, ?l5]) =
      [?l3, ?l4] @ ('' '' @ ''resets'' @ '' '' @ ''Jan'' @ '' 5, 3pm (America/NY'' @ CHR '')'' # []) # []"
    by simp
  note th = reset_fields_plain [where ?text = ?X
      and pre = "[]" and h = ?l0 and post = "[?l1, ?l2, ?l3, ?l4, ?l5]"
      and ?w1.0 = "[?l0, ?l1]" and ?w2.0 = "[]" and lead = "'' ''" and kw = "''Resets''"
      and sp = "'' ''" and dc = "''3:00''" and ws = "[]" and x = "CHR ''p''" and m = "CHR ''m''"
      and z = "'' (America/NY''" and b = "[]"
      and pre' = "[?l0, ?l1, ?l2]" and h' = ?l3 and post' = "[?l4, ?l5]"
      and w1' = "[?l3, ?l4]" and w2' = "[]" and lead' = "'' ''" and kw' = "''resets''"
      and sp' = "'' ''" and mon = "''Jan''" and z' = "'' 5, 3pm (America/NY''" and b' = "[]"]
  from th cv obtain r where r: "parse_usage ?X = Inr r"
    by blast
  from th [of r] r c1 s1 s2 t3 s3 s4 s5
  have a: "session_reset r = strip (''3:00'' @ [] @ [CHR ''p'', CHR ''m''] @ '' (America/NY'')"
    by blast
  from th [of r] r c2 w1 w2 t5 w3 s4(1) w4 w5
  have b: "weekly_reset r = strip (''Jan'' @ '' 5, 3pm (America/NY'')"
    by blast
  from th [of r] r
  have c: "CHR '')'' \<notin> set (session_reset r) \<and> NL \<notin> set (session_reset r) \<and>
      CHR '')'' \<notin> set (weekly_reset r) \<and> NL \<notin> set (weekly_reset r)"
    by blast
  from r a b c have "\<exists>r. parse_usage ?X = Inr r \<and>
      session_reset r = ''3:00pm (America/NY'' \<and>
      weekly_reset r = ''Jan 5, 3pm (America/NY'' \<and>
      CHR '')'' \<notin> set (session_reset r) \<and> NL \<notin> set (session_reset r) \<and>
      CHR '')'' \<notin> set (weekly_reset r) \<and> NL \<notin> set (weekly_reset r)"
    unfolding s6 w6 by blast
  with cl s1 s2 s3 s4 s5 w1 w2 w3 w4 w5 show ?thesis
    by blast
qed

subsection \<open>The two scenarios of the specification\<close>

text \<open>
  Claim C2, as stated, does not hold: for every text that contains the lines
  \<^verbatim>\<open>Current session\<close>, \<^verbatim>\<open>  45%\<close>, \<^verbatim>\<open>  Resets 3:00pm (America/NY)\<close> in sequence the
  result should have \<^verbatim>\<open>session_percent\<close> 45 and a \<^verbatim>\<open>session_reset\<close> that contains
  \<^verbatim>\<open>3:00pm (America/NY)\<close>. The text below contains the three lines, followed by a
  second header line with a percentage. The capture of the reset time ends before the
  closing parenthesis (\<^verbatim>\<open>[^)\n]*\<close>), and the later header line sets the percentage
  again.
\<close>

theorem session_scenario_counterexample:
  "cleaned_lines (py ''Current session\<newline>  45%\<newline>  Resets 3:00pm (America/NY)\<newline>Current session 50%'') =
     [''Current session'', '' 45%'', '' Resets 3:00pm (America/NY)'', ''Current session 50%''] \<and>
   parse_usage (py ''Current session\<newline>  45%\<newline>  Resets 3:00pm (America/NY)\<newline>Current session 50%'') =
     Inr \<lparr>session_percent = 50, session_reset = ''3:00pm (America/NY'', weekly_percent = 0,
          weekly_reset = [], sonnet_percent = 0,
          raw = ''Current session\<newline> 45%\<newline> Resets 3:00pm (America/NY)\<newline>Current session 50%''\<rparr> \<and>
   \<not> contains ''3:00pm (America/NY)'' ''3:00pm (America/NY''"
  by code_simp

text \<open>
  Claim C2, amended. Take any input whose cleaned lines contain the three lines in
  sequence (cleaning leaves one of the two leading spaces) and on which every percentage
  that \<^verbatim>\<open>parse_usage\<close> converts has at most 4300 digits. \<^verbatim>\<open>parse_usage\<close> returns a
  record. Its \<^verbatim>\<open>session_percent\<close> is 45, unless a session header line after the three
  lines has a percentage in its window: then it is the percentage of the last such line.
  Its \<^verbatim>\<open>session_reset\<close> is the reset text up to, and without, the closing parenthesis,
  \<^verbatim>\<open>3:00pm (America/NY\<close>, unless a session header line after the three lines has a
  reset time in its window: then it is the reset time of the last such line.
\<close>

theorem session_scenario:
  assumes lines: "cleaned_lines text =
      pre @ [''Current session'', '' 45%'', '' Resets 3:00pm (America/NY)''] @ post"
    and conv: "converts (cleaned_lines text)"
  shows "\<exists>r. parse_usage text = Inr r \<and>
           session_percent r =
             (case last_found session_header (percent_in post) post of
                None \<Rightarrow> 45
              | Some w \<Rightarrow> w) \<and>
           session_reset r =
             (case last_found session_header (session_reset_in post) post of
                None \<Rightarrow> ''3:00pm (America/NY''
              | Some w \<Rightarrow> w)"
proof -
  let ?l1 = "''Current session''" and ?l2 = "'' 45%''" and ?l3 = "'' Resets 3:00pm (America/NY)''"
  let ?lines = "cleaned_lines text"
  have eq: "?lines = pre @ ?l1 # [?l2, ?l3] @ post"
    using lines by simp
  have w: "window ?lines (length pre) 3 = [?l1, ?l2, ?l3]"
    unfolding eq window_at_append by simp
  have mid: "list_all (\<lambda>l. \<not> session_header l) [?l2, ?l3]"
    using session_lines_eval(2,3) by (simp only: list.pred_inject) blast
  have p: "percent_in ?lines (length pre) = Some 45"
    unfolding percent_in_def w by (simp only: session_lines_eval option.map)
  have r: "session_reset_in ?lines (length pre) = Some ''3:00pm (America/NY''"
    unfolding session_reset_in_def w by (simp only: session_lines_eval option.map)
  have "session_percent (parsed text) =
      (case last_found session_header (percent_in post) post of None \<Rightarrow> 45 | Some w \<Rightarrow> w)"
    using session_percent_step percent_in_append eq session_lines_eval(1) p mid
    by (rule parsed_after_header)
  moreover have "session_reset (parsed text) =
      (case last_found session_header (session_reset_in post) post of
         None \<Rightarrow> ''3:00pm (America/NY'' | Some w \<Rightarrow> w)"
    using session_reset_step session_reset_in_append eq session_lines_eval(1) r mid
    by (rule parsed_after_header)
  moreover have "parse_usage text = Inr (parsed text)"
    using conv by (rule parse_usage_returns)
  ultimately show ?thesis by blast
qed

text \<open>
  The three lines inside a transcript with a line before them, the header in bold
  (\<^verbatim>\<open>ESC [ 1 m\<close> ... \<^verbatim>\<open>ESC [ 0 m\<close>), and after them a second header line whose window
  holds neither a percentage nor a reset time.
\<close>

theorem session_scenario_witness:
  "cleaned_lines (py (''Status\<newline>'' @ CHR 0x1B # ''[1mCurrent session'' @ CHR 0x1B #
       ''[0m\<newline>  45%\<newline>  Resets 3:00pm (America/NY)\<newline>Current session\<newline>loading'')) =
     [''Status''] @ [''Current session'', '' 45%'', '' Resets 3:00pm (America/NY)''] @
     [''Current session'', ''loading''] \<and>
   converts (cleaned_lines (py (''Status\<newline>'' @ CHR 0x1B # ''[1mCurrent session'' @ CHR 0x1B #
       ''[0m\<newline>  45%\<newline>  Resets 3:00pm (America/NY)\<newline>Current session\<newline>loading''))) \<and>
   last_found session_header (percent_in [''Current session'', ''loading''])
     [''Current session'', ''loading''] = None \<and>
   last_found session_header (session_reset_in [''Current session'', ''loading''])
     [''Current session'', ''loading''] = None \<and>
   (\<exists>r. parse_usage (py (''Status\<newline>'' @ CHR 0x1B # ''[1mCurrent session'' @ CHR 0x1B #
       ''[0m\<newline>  45%\<newline>  Resets 3:00pm (America/NY)\<newline>Current session\<newline>loading'')) = Inr r \<and>
      session_percent r = 45 \<and> session_reset r = ''3:00pm (America/NY'')"
proof -
  let ?X = "py (''Status\<newline>'' @ CHR 0x1B # ''[1mCurrent session'' @ CHR 0x1B #
       ''[0m\<newline>  45%\<newline>  Resets 3:00pm (America/NY)\<newline>Current session\<newline>loading'')"
  let ?post = "[''Current session'', ''loading'']"
  have h1: "cleaned_lines ?X =
      [''Status''] @ [''Current session'', '' 45%'', '' Resets 3:00pm (America/NY)''] @ ?post"
    by code_simp
  have h2: "converts (cleaned_lines ?X)"
    unfolding h1 by code_simp
  have n1: "last_found session_header (percent_in ?post) ?post = None"
    by code_simp
  have n2: "last_found session_header (session_reset_in ?post) ?post = None"
    by code_simp
  from session_scenario [OF h1 h2]
  have "\<exists>r. parse_usage ?X = Inr r \<and> session_percent r = 45 \<and>
      session_reset r = ''3:00pm (America/NY''"
    unfolding n1 n2 by simp
  with h1 h2 n1 n2 show ?thesis
    by blast
qed

text \<open>
  Claim C7, as stated, does not hold: for every text that contains the lines
  \<^verbatim>\<open>Current week (all models)\<close>, \<^verbatim>\<open>  12%\<close>, \<^verbatim>\<open>  Resets Jan 5, 2025\<close> in sequence
  the result should have \<^verbatim>\<open>weekly_percent\<close> 12 and \<^verbatim>\<open>weekly_reset\<close>
  \<^verbatim>\<open>Jan 5, 2025\<close>. In the text below the section is drawn a second time with other
  figures; the loop assigns the fields again at the second header line.
\<close>

theorem weekly_scenario_counterexample:
  "cleaned_lines (py ''Current week (all models)\<newline>  12%\<newline>  Resets Jan 5, 2025\<newline>Current week (all models)\<newline>  80%\<newline>  Resets Jan 12, 2025'') =
     [''Current week (all models)'', '' 12%'', '' Resets Jan 5, 2025'',
      ''Current week (all models)'', '' 80%'', '' Resets Jan 12, 2025''] \<and>
   parse_usage (py ''Current week (all models)\<newline>  12%\<newline>  Resets Jan 5, 2025\<newline>Current week (all models)\<newline>  80%\<newline>  Resets Jan 12, 2025'') =
     Inr \<lparr>session_percent = 0, session_reset = [], weekly_percent = 80,
          weekly_reset = ''Jan 12, 2025'', sonnet_percent = 0,
          raw = ''Current week (all models)\<newline> 12%\<newline> Resets Jan 5, 2025\<newline>Current week (all models)\<newline> 80%\<newline> Resets Jan 12, 2025''\<rparr>"
  by code_simp

text \<open>
  Claim C7, amended. Take any input whose cleaned lines contain the three lines in
  sequence and on which every percentage that \<^verbatim>\<open>parse_usage\<close> converts has at most 4300
  digits. \<^verbatim>\<open>parse_usage\<close> returns a record. Its \<^verbatim>\<open>weekly_percent\<close> is 12, unless a
  header line of the weekly section after the three lines has a percentage in its
  window: then it is the percentage of the last such line. Its \<^verbatim>\<open>weekly_reset\<close> is
  \<^verbatim>\<open>Jan 5, 2025\<close>, the match without its leading \<^verbatim>\<open>Resets\<close>, unless a header line of
  the weekly section after the three lines has a reset date in its window: then it is
  the reset date of the last such line.
\<close>

theorem weekly_scenario:
  assumes lines: "cleaned_lines text =
      pre @ [''Current week (all models)'', '' 12%'', '' Resets Jan 5, 2025''] @ post"
    and conv: "converts (cleaned_lines text)"
  shows "\<exists>r. parse_usage text = Inr r \<and>
           weekly_percent r =
             (case last_found weekly_header (percent_in post) post of
                None \<Rightarrow> 12
              | Some w \<Rightarrow> w) \<and>
           weekly_reset r =
             (case last_found weekly_header (weekly_reset_in post) post of
                None \<Rightarrow> ''Jan 5, 2025''
              | Some w \<Rightarrow> w)"
proof -
  let ?l1 = "''Current week (all models)''" and ?l2 = "'' 12%''" and ?l3 = "'' Resets Jan 5, 2025''"
  let ?lines = "cleaned_lines text"
  have eq: "?lines = pre @ ?l1 # [?l2, ?l3] @ post"
    using lines by simp
  have w3: "window ?lines (length pre) 3 = [?l1, ?l2, ?l3]"
    unfolding eq window_at_append by simp
  have w5: "window ?lines (length pre) 5 = [?l1, ?l2, ?l3] @ take 2 post"
    unfolding eq window_at_append by simp
  have mid: "list_all (\<lambda>l. \<not> weekly_header l) [?l2, ?l3]"
    using weekly_lines_eval(2,3) by (simp only: list.pred_inject) blast
  have p: "percent_in ?lines (length pre) = Some 12"
    unfolding percent_in_def w3 by (simp only: weekly_lines_eval option.map)
  have r: "weekly_reset_in ?lines (length pre) = Some ''Jan 5, 2025''"
    unfolding weekly_reset_in_def w5 first_match_append
    by (simp only: weekly_lines_eval option.map option.case)
  have "weekly_percent (parsed text) =
      (case last_found weekly_header (percent_in post) post of None \<Rightarrow> 12 | Some w \<Rightarrow> w)"
    using weekly_percent_step percent_in_append eq weekly_lines_eval(1) p mid
    by (rule parsed_after_header)
  moreover have "weekly_reset (parsed text) =
      (case last_found weekly_header (weekly_reset_in post) post of
         None \<Rightarrow> ''Jan 5, 2025'' | Some w \<Rightarrow> w)"
    using weekly_reset_step weekly_reset_in_append eq weekly_lines_eval(1) r mid
    by (rule parsed_after_header)
  moreover have "parse_usage text = Inr (parsed text)"
    using conv by (rule parse_usage_returns)
  ultimately show ?thesis by blast
qed

text \<open>
  The three lines inside a transcript, followed by a second header line of the weekly
  section whose window holds neither a percentage nor a reset date, and by the section
  for Sonnet, whose header is no header of the weekly section.
\<close>

theorem weekly_scenario_witness:
  "cleaned_lines (py (''Usage\<newline>'' @ CHR 0x1B # ''[1mCurrent week (all models)'' @ CHR 0x1B #
       ''[0m\<newline>  12%\<newline>  Resets Jan 5, 2025\<newline>Current week (all models)\<newline>loading\<newline>\<newline>\<newline>\<newline>Sonnet only 7%'')) =
     [''Usage''] @ [''Current week (all models)'', '' 12%'', '' Resets Jan 5, 2025''] @
     [''Current week (all models)'', ''loading'', [], [], [], ''Sonnet only 7%''] \<and>
   converts (cleaned_lines (py (''Usage\<newline>'' @ CHR 0x1B # ''[1mCurrent week (all models)'' @ CHR 0x1B #
       ''[0m\<newline>  12%\<newline>  Resets Jan 5, 2025\<newline>Current week (all models)\<newline>loading\<newline>\<newline>\<newline>\<newline>Sonnet only 7%''))) \<and>
   last_found weekly_header
     (percent_in [''Current week (all models)'', ''loading'', [], [], [], ''Sonnet only 7%''])
     [''Current week (all models)'', ''loading'', [], [], [], ''Sonnet only 7%''] = None \<and>
   last_found weekly_header
     (weekly_reset_in [''Current week (all models)'', ''loading'', [], [], [], ''Sonnet only 7%''])
     [''Current week (all models)'', ''loading'', [], [], [], ''Sonnet only 7%''] = None \<and>
   (\<exists>r. parse_usage (py (''Usage\<newline>'' @ CHR 0x1B # ''[1mCurrent week (all models)'' @ CHR 0x1B #
       ''[0m\<newline>  12%\<newline>  Resets Jan 5, 2025\<newline>Current week (all models)\<newline>loading\<newline>\<newline>\<newline>\<newline>Sonnet only 7%'')) = Inr r \<and>
      weekly_percent r = 12 \<and> weekly_reset r = ''Jan 5, 2025'')"
proof -
  let ?X = "py (''Usage\<newline>'' @ CHR 0x1B # ''[1mCurrent week (all models)'' @ CHR 0x1B #
       ''[0m\<newline>  12%\<newline>  Resets Jan 5, 2025\<newline>Current week (all models)\<newline>loading\<newline>\<newline>\<newline>\<newline>Sonnet only 7%'')"
  let ?post = "[''Current week (all models)'', ''loading'', [], [], [], ''Sonnet only 7%'']"
  have h1: "cleaned_lines ?X =
     [''Usage''] @ [''Current week (all models)'', '' 12%'', '' Resets Jan 5, 2025''] @ ?post"
    by code_simp
  have h2: "converts (cleaned_lines ?X)"
    unfolding h1 by code_simp
  have n1: "last_found weekly_header (percent_in ?post) ?post = None"
    by code_simp
  have n2: "last_found weekly_header (weekly_reset_in ?post) ?post = None"
    by code_simp
  from weekly_scenario [OF h1 h2]
  have "\<exists>r. parse_usage ?X = Inr r \<and> weekly_percent r = 12 \<and> weekly_reset r = ''Jan 5, 2025''"
    unfolding n1 n2 by simp
  with h1 h2 n1 n2 show ?thesis
    by blast
qed

subsection \<open>Where a percentage comes from\<close>

text \<open>
  Claim C3, as stated, does not hold: each percent field should be the value of the first
  occurrence, in the window of the section's header line, of digits immediately followed
  by a percent sign. In the text below the session header occurs twice. Digits immediately
  followed by a percent sign occur in the window of the first header line only, with the
  value 10; the window of the second header line holds \<^verbatim>\<open>45 %\<close>, with a space
  before the percent sign. The source's pattern \<^verbatim>\<open>(\d+)\s*%\<close> accepts the space, and
  the loop assigns the field again at the second header line: the field is 45.
\<close>

theorem percent_from_last_header_counterexample:
  "cleaned_lines (py ''Current session\<newline>10%\<newline>Current session\<newline>45 %'') =
     [''Current session'', ''10%'', ''Current session'', ''45 %''] \<and>
   first_match (search spec_percent_at)
     (window [''Current session'', ''10%'', ''Current session'', ''45 %''] 0 3) = Some ''10'' \<and>
   first_match (search spec_percent_at)
     (window [''Current session'', ''10%'', ''Current session'', ''45 %''] 2 3) = None \<and>
   parse_usage (py ''Current session\<newline>10%\<newline>Current session\<newline>45 %'') =
     Inr \<lparr>session_percent = 45, session_reset = [], weekly_percent = 0, weekly_reset = [],
          sonnet_percent = 0, raw = ''Current session\<newline>10%\<newline>Current session\<newline>45 %''\<rparr>"
  by code_simp

text \<open>
  Claim C3, amended. Take any input on which every percentage that \<^verbatim>\<open>parse_usage\<close>
  converts has at most 4300 digits, and any header line of a section in its cleaned text
  such that no later header line of that section has a match in its window.
  \<^verbatim>\<open>parse_usage\<close> returns a record, and the section's percent field is the integer value
  of the first match of \<^verbatim>\<open>(\d+)\s*%\<close> (digits, optional white space, a percent sign),
  searching the header line and then up to two following lines in order; the lines
  before the header line (\<open>pre\<close>) have no influence on the field.
  \<open>search_percent_iff\<close> and \<open>search_percent_None_iff\<close> say what the search of one line
  returns: the digits of the leftmost occurrence, and nothing exactly when the line has
  no occurrence.
\<close>

theorem percent_from_last_header:
  assumes "cleaned_lines text = pre @ h # post"
    and "converts (cleaned_lines text)"
    and "first_match search_percent (take 3 (h # post)) = Some ds"
  shows "\<exists>r. parse_usage text = Inr r \<and>
           (session_header h \<and> finds_nothing session_header (percent_in post) post
              \<longrightarrow> session_percent r = int_of_digits ds) \<and>
           (weekly_header h \<and> finds_nothing weekly_header (percent_in post) post
              \<longrightarrow> weekly_percent r = int_of_digits ds) \<and>
           (sonnet_header h \<and> finds_nothing sonnet_header (percent_in post) post
              \<longrightarrow> sonnet_percent r = int_of_digits ds)"
  using percent_last_header [of session_percent, OF session_percent_step assms(1,3)]
    percent_last_header [of weekly_percent, OF weekly_percent_step assms(1,3)]
    percent_last_header [of sonnet_percent, OF sonnet_percent_step assms(1,3)]
    parse_usage_returns [OF assms(2)]
  by blast

text \<open>
  One transcript with the three sections, and the theorem at each of its header lines.
\<close>

theorem percent_from_last_header_witness:
  "cleaned_lines (py ''Current session\<newline> 45 %\<newline>Current week (all models)\<newline>12%\<newline>Sonnet only 7%'') =
     [''Current session'', '' 45 %'', ''Current week (all models)'', ''12%'', ''Sonnet only 7%''] \<and>
   converts (cleaned_lines (py ''Current session\<newline> 45 %\<newline>Current week (all models)\<newline>12%\<newline>Sonnet only 7%'')) \<and>
   session_header ''Current session'' \<and>
   finds_nothing session_header
     (percent_in ['' 45 %'', ''Current week (all models)'', ''12%'', ''Sonnet only 7%''])
     ['' 45 %'', ''Current week (all models)'', ''12%'', ''Sonnet only 7%''] \<and>
   first_match search_percent
     (take 3 [''Current session'', '' 45 %'', ''Current week (all models)'', ''12%'', ''Sonnet only 7%''])
     = Some ''45'' \<and>
   weekly_header ''Current week (all models)'' \<and>
   finds_nothing weekly_header (percent_in [''12%'', ''Sonnet only 7%'']) [''12%'', ''Sonnet only 7%''] \<and>
   first_match search_percent (take 3 [''Current week (all models)'', ''12%'', ''Sonnet only 7%''])
     = Some ''12'' \<and>
   sonnet_header ''Sonnet only 7%'' \<and>
   finds_nothing sonnet_header (percent_in []) [] \<and>
   first_match search_percent (take 3 [''Sonnet only 7%'']) = Some ''7'' \<and>
   (\<exists>r. parse_usage (py ''Current session\<newline> 45 %\<newline>Current week (all models)\<newline>12%\<newline>Sonnet only 7%'') = Inr r \<and>
      session_percent r = 45 \<and> weekly_percent r = 12 \<and> sonnet_percent r = 7)"
proof -
  let ?X = "py ''Current session\<newline> 45 %\<newline>Current week (all models)\<newline>12%\<newline>Sonnet only 7%''"
  let ?l0 = "''Current session''" and ?l1 = "'' 45 %''" and ?l2 = "''Current week (all models)''"
    and ?l3 = "''12%''" and ?l4 = "''Sonnet only 7%''"
  have cl: "cleaned_lines ?X = [?l0, ?l1, ?l2, ?l3, ?l4]"
    by code_simp
  have cv: "converts (cleaned_lines ?X)"
    unfolding cl by code_simp
  have c1: "cleaned_lines ?X = [] @ ?l0 # [?l1, ?l2, ?l3, ?l4]"
    and c2: "cleaned_lines ?X = [?l0, ?l1] @ ?l2 # [?l3, ?l4]"
    and c3: "cleaned_lines ?X = [?l0, ?l1, ?l2, ?l3] @ ?l4 # []"
    using cl by simp_all
  have s1: "session_header ?l0"
    and s2: "finds_nothing session_header (percent_in [?l1, ?l2, ?l3, ?l4]) [?l1, ?l2, ?l3, ?l4]"
    and s3: "first_match search_percent (take 3 (?l0 # [?l1, ?l2, ?l3, ?l4])) = Some ''45''"
    by code_simp+
  have w1: "weekly_header ?l2"
    and w2: "finds_nothing weekly_header (percent_in [?l3, ?l4]) [?l3, ?l4]"
    and w3: "first_match search_percent (take 3 (?l2 # [?l3, ?l4])) = Some ''12''"
    by code_simp+
  have o1: "sonnet_header ?l4"
    and o2: "finds_nothing sonnet_header (percent_in []) []"
    and o3: "first_match search_percent (take 3 (?l4 # [])) = Some ''7''"
    by code_simp+
  have v: "int_of_digits ''45'' = 45" "int_of_digits ''12'' = 12" "int_of_digits ''7'' = 7"
    by code_simp+
  from percent_from_last_header [OF c1 cv s3] s1 s2
  obtain r where r: "parse_usage ?X = Inr r" and r1: "session_percent r = 45"
    unfolding v by blast
  from percent_from_last_header [OF c2 cv w3] w1 w2 r
  have r2: "weekly_percent r = 12"
    unfolding v by auto
  from percent_from_last_header [OF c3 cv o3] o1 o2 r
  have r3: "sonnet_percent r = 7"
    unfolding v by auto
  from r r1 r2 r3 have "\<exists>r. parse_usage ?X = Inr r \<and>
      session_percent r = 45 \<and> weekly_percent r = 12 \<and> sonnet_percent r = 7"
    by blast
  with cl cv s1 s2 s3 w1 w2 w3 o1 o2 o3 show ?thesis
    by simp
qed

end
